theory Spec2Isabelle
  imports Main "HOL-Library.AList"
begin

section \<open>The Target Classifier: \<open>is_ip_address\<close>\<close>

text \<open>
  Strings are lists of 8-bit characters (code points below 256). On that range the
  class \<open>\d\<close> of Python's \<open>re\<close> is exactly the ten ASCII digits.
\<close>

definition is_digit :: "char \<Rightarrow> bool" where
  "is_digit c = (c \<in> set ''0123456789'')"

definition newline :: char where
  "newline = CHR 0x0A"

text \<open>
  \<^verbatim>\<open>
  def is_ip_address(self, target):
      pattern = r'^(\d{1,3}\.){3}\d{1,3}$'
      return bool(re.match(pattern, target))
  \<close>
  The pattern is run as a backtracking matcher: every piece maps a string to the list of
  remainders it can leave, the preferred (greedy) one first, and a sequence of pieces
  tries every remainder of the piece before it. \<open>re.match\<close> anchors at the start;
  \<open>$\<close> without \<open>re.MULTILINE\<close> succeeds at the end of the string and also just before
  a newline that is the last character.
\<close>

fun more_digits :: "nat \<Rightarrow> string \<Rightarrow> string list" where
  "more_digits 0 s = [s]"
| "more_digits (Suc n) [] = [[]]"
| "more_digits (Suc n) (c # cs) =
     (if is_digit c then more_digits n cs @ [c # cs] else [c # cs])"

definition re_digits_1_3 :: "string \<Rightarrow> string list" where
  \<comment> \<open>\<open>\d{1,3}\<close>: one digit, then up to two more\<close>
  "re_digits_1_3 s = (case s of [] \<Rightarrow> [] | c # cs \<Rightarrow> if is_digit c then more_digits 2 cs else [])"

definition re_dot :: "string \<Rightarrow> string list" where
  \<comment> \<open>\<open>\.\<close>\<close>
  "re_dot s = (case s of [] \<Rightarrow> [] | c # cs \<Rightarrow> if c = CHR ''.'' then [cs] else [])"

definition re_group :: "string \<Rightarrow> string list" where
  \<comment> \<open>\<open>(\d{1,3}\.)\<close>\<close>
  "re_group s = concat (map re_dot (re_digits_1_3 s))"

definition re_end :: "string \<Rightarrow> bool" where
  \<comment> \<open>\<open>$\<close>\<close>
  "re_end s = (s = [] \<or> s = [newline])"

definition is_ip_address :: "string \<Rightarrow> bool" where
  "is_ip_address target =
     list_ex re_end
       (concat (map re_digits_1_3
         (concat (map re_group (concat (map re_group (re_group target)))))))"

subsection \<open>The dotted-quad pattern in the specification's words\<close>

text \<open>
  Four groups of one to three digits, separated by periods: the string is cut at every
  period, and each of the four pieces must be such a group.
\<close>

fun split_on :: "char \<Rightarrow> string \<Rightarrow> string list" where
  "split_on sep [] = [[]]"
| "split_on sep (c # cs) =
     (if c = sep then [] # split_on sep cs
      else (case split_on sep cs of [] \<Rightarrow> [[c]] | g # gs \<Rightarrow> (c # g) # gs))"

definition digit_group :: "string \<Rightarrow> bool" where
  "digit_group g = (1 \<le> length g \<and> length g \<le> 3 \<and> list_all is_digit g)"

definition dotted_quad :: "string \<Rightarrow> bool" where
  "dotted_quad s = (length (split_on CHR ''.'' s) = 4 \<and> list_all digit_group (split_on CHR ''.'' s))"


section \<open>Python values, exceptions and the outside world\<close>

text \<open>
  The values the tool stores in \<open>self.output\<close>: \<open>None\<close>, strings, lists and
  dictionaries. A dictionary is an association list in insertion order; its keys are
  strings or integers (the port scan uses integer keys). \<open>d[k] = v\<close> is
  \<^const>\<open>AList.update\<close>: it replaces the value of a key that is present and appends
  a new key at the end.
\<close>

datatype key = KStr string | KInt int

datatype pyval = PNone | PStr string | PList "pyval list" | PDict "(key \<times> pyval) list"

text \<open>
  Exceptions are values. Only the classes the handlers of the program tell apart are kept:
  \<open>socket.gaierror\<close>, which is a subclass of \<open>OSError\<close>; any other \<open>OSError\<close>; and any
  other subclass of \<open>Exception\<close> (for instance the \<open>UnicodeError\<close> that the \<open>idna\<close> codec
  raises inside \<open>socket.gethostbyname\<close> for a name with an empty or over-long label).
  Asynchronous interrupts, which are not subclasses of \<open>Exception\<close>, are not modelled.
\<close>

datatype exn = Gaierror | OSError | OtherException

fun is_gaierror :: "exn \<Rightarrow> bool" where
  "is_gaierror Gaierror = True"
| "is_gaierror _ = False"

fun is_OSError :: "exn \<Rightarrow> bool" where
  "is_OSError Gaierror = True"
| "is_OSError OSError = True"
| "is_OSError OtherException = False"

text \<open>
  What \<open>python-whois\<close> returns for \<open>registrar\<close>, \<open>name_servers\<close> and \<open>emails\<close>: \<open>None\<close>, a
  string or a list of strings. The two dates are kept as the text \<open>str(...)\<close> gives for
  them.
\<close>

datatype wfield = WNone | WStr string | WList "string list"

record whois_entry =
  registrar :: wfield
  creation_date_str :: string
  expiration_date_str :: string
  name_servers :: wfield
  emails :: wfield

fun py_of_wfield :: "wfield \<Rightarrow> pyval" where
  "py_of_wfield WNone = PNone"
| "py_of_wfield (WStr s) = PStr s"
| "py_of_wfield (WList xs) = PList (map PStr xs)"

fun truthy :: "wfield \<Rightarrow> bool" where
  "truthy WNone = False"
| "truthy (WStr s) = (s \<noteq> [])"
| "truthy (WList xs) = (xs \<noteq> [])"

text \<open>
  The outside world is a record of the library calls the program makes, each a function of
  its arguments to what the call returns or raises (\<open>Inl\<close> the exception). Every call of a
  run has different arguments, so nothing is lost by leaving time out.
  \<^item> \<open>connect_ex\<close> stands for the body of \<open>check_port\<close> up to its result: creating the socket
    and \<open>sock.connect_ex((ip, port))\<close>. It returns the error indicator of the C-level
    \<open>connect\<close> (0 on success; a timeout or a refusal is a non-zero indicator) and raises
    for every other problem, such as an address that cannot be looked up.
  \<^item> \<open>requests_get\<close> returns the items of \<open>response.headers\<close>.
  \<^item> \<open>open_write\<close> is \<open>open(filename, 'w')\<close> with the write that follows: \<open>None\<close> when it
    succeeds.
  \<^item> \<open>print_raises field value\<close> says whether one of the \<open>print\<close> calls that show the value
    just stored under \<open>field\<close> raises an exception (a \<open>UnicodeEncodeError\<close> for a character
    the encoding of the standard output lacks, for instance). These prints stand inside a
    \<open>try\<close> block whose handler is \<open>except Exception\<close>, after the value is stored: in
    \<open>get_whois\<close> and in \<open>get_http_headers\<close> what they raise is caught and changes what is
    stored or requested next. The other prints of the program are left out.
\<close>

record world =
  gethostbyname :: "string \<Rightarrow> exn + string"
  whois_lookup :: "string \<Rightarrow> exn + whois_entry"
  dns_resolve :: "string \<Rightarrow> string \<Rightarrow> exn + string list"
  connect_ex :: "string \<Rightarrow> int \<Rightarrow> exn + int"
  getservbyport :: "int \<Rightarrow> exn + string"
  requests_get :: "string \<Rightarrow> exn + (string \<times> string) list"
  open_write :: "string \<Rightarrow> exn option"
  print_raises :: "string \<Rightarrow> pyval \<Rightarrow> bool"

text \<open>The calls a run makes, in the order it makes them.\<close>

datatype call =
    Gethostbyname string
  | Whois string
  | DnsResolve string string
  | Connect string int
  | Getservbyport int
  | HttpGet string nat
  | OpenWrite string

section \<open>JSON documents\<close>

text \<open>
  The output artifact is held as the JSON document that \<open>json.dump\<close> writes, not as its
  text: indentation and string escapes belong to the \<open>json\<close> library, whose reader gives
  back the document its writer was given. What \<open>json.dump\<close> does to a Python value is kept:
  a JSON object has string keys only, so an integer key is written as its decimal text.
  \<open>json.load\<close> builds a dictionary from the members of an object in their order, a later
  member replacing the value of an equal earlier key.
\<close>

datatype json = JNull | JStr string | JArr "json list" | JObj "(string \<times> json) list"

definition digit_char :: "nat \<Rightarrow> char" where
  "digit_char d = ''0123456789'' ! d"

fun str_of_nat :: "nat \<Rightarrow> string" where
  "str_of_nat n =
     (if n < 10 then [digit_char n]
      else str_of_nat (n div 10) @ [digit_char (n mod 10)])"

definition str_of_int :: "int \<Rightarrow> string" where
  "str_of_int i = (if i < 0 then CHR ''-'' # str_of_nat (nat (- i)) else str_of_nat (nat i))"

fun key_str :: "key \<Rightarrow> string" where
  "key_str (KStr s) = s"
| "key_str (KInt i) = str_of_int i"

primrec json_dump :: "pyval \<Rightarrow> json" where
  "json_dump PNone = JNull"
| "json_dump (PStr s) = JStr s"
| "json_dump (PList vs) = JArr (map json_dump vs)"
| "json_dump (PDict kvs) = JObj (map (map_prod key_str json_dump) kvs)"

definition py_dict :: "('k \<times> 'v) list \<Rightarrow> ('k \<times> 'v) list" where
  \<comment> \<open>\<open>dict(pairs)\<close>\<close>
  "py_dict pairs = fold (\<lambda>(k, v) d. AList.update k v d) pairs []"

primrec json_load :: "json \<Rightarrow> pyval" where
  "json_load JNull = PNone"
| "json_load (JStr s) = PStr s"
| "json_load (JArr js) = PList (map json_load js)"
| "json_load (JObj members) = PDict (py_dict (map (map_prod KStr json_load) members))"

section \<open>The tool\<close>

text \<open>
  The state of an \<open>OsintTool\<close> whose target has been set: \<open>self.target\<close> and the
  dictionary \<open>self.output["results"]\<close>. Beside them the record keeps what the run did to
  the world: the calls it made and the files it wrote.
\<close>

record tool =
  target :: string
  results :: "(key \<times> pyval) list"
  calls :: "call list"
  files :: "(string \<times> json) list"

definition set_target :: "string \<Rightarrow> tool" where
  "set_target tgt = \<lparr>target = tgt, results = [], calls = [], files = []\<rparr>"

definition self_output :: "tool \<Rightarrow> pyval" where
  \<comment> \<open>\<open>self.output\<close>\<close>
  "self_output t = PDict [(KStr ''target'', PStr (target t)), (KStr ''results'', PDict (results t))]"

definition set_result :: "string \<Rightarrow> pyval \<Rightarrow> tool \<Rightarrow> tool" where
  \<comment> \<open>\<open>self.output["results"][k] = v\<close>\<close>
  "set_result k v t = t\<lparr>results := AList.update (KStr k) v (results t)\<rparr>"

definition log_call :: "call \<Rightarrow> tool \<Rightarrow> tool" where
  "log_call c t = t\<lparr>calls := calls t @ [c]\<rparr>"

subsection \<open>\<open>get_ip\<close>\<close>

text \<open>
  \<^verbatim>\<open>
  def get_ip(self):
      if self.is_ip_address(self.target):
          return self.target
      try:
          ip = socket.gethostbyname(self.target)
          self.output["results"]["ip_address"] = ip
          return ip
      except socket.gaierror:
          self.output["results"]["ip_address"] = "Not found"
          return None
  \<close>
  The handler catches \<open>socket.gaierror\<close> only: any other exception leaves \<open>get_ip\<close>.
\<close>

definition get_ip :: "world \<Rightarrow> tool \<Rightarrow> exn + (string option \<times> tool)" where
  "get_ip w t =
     (if is_ip_address (target t) then Inr (Some (target t), t)
      else
        let t1 = log_call (Gethostbyname (target t)) t in
        case gethostbyname w (target t) of
          Inr ip \<Rightarrow> Inr (Some ip, set_result ''ip_address'' (PStr ip) t1)
        | Inl e \<Rightarrow>
            if is_gaierror e then Inr (None, set_result ''ip_address'' (PStr ''Not found'') t1)
            else Inl e)"

subsection \<open>\<open>get_whois\<close>\<close>

definition simplified_whois :: "whois_entry \<Rightarrow> pyval" where
  "simplified_whois info =
     PDict [(KStr ''registrar'', py_of_wfield (registrar info)),
            (KStr ''creation_date'', PStr (creation_date_str info)),
            (KStr ''expiration_date'', PStr (expiration_date_str info)),
            (KStr ''name_servers'', py_of_wfield (name_servers info)),
            (KStr ''emails'', if truthy (emails info) then py_of_wfield (emails info) else PList [])]"

text \<open>
  \<^verbatim>\<open>
  try:
      whois_info = whois.whois(self.target)
      simplified_whois = {...}
      self.output["results"]["whois"] = simplified_whois
      print(f"{Fore.GREEN}[+] WHOIS Information:{Style.RESET_ALL}")
      for key, value in simplified_whois.items():
          print(f"  {key.capitalize()}: {value}")
  except Exception as e:
      print(f"{Fore.RED}[-] WHOIS lookup failed: {e}{Style.RESET_ALL}")
      self.output["results"]["whois"] = "Lookup failed"
  \<close>
  Every exception of the \<open>try\<close> block becomes the marker: that of the lookup, and that of
  a print after the record is stored, which the marker then replaces.
\<close>

definition get_whois :: "world \<Rightarrow> tool \<Rightarrow> tool" where
  "get_whois w t =
     (let t1 = log_call (Whois (target t)) t in
      case whois_lookup w (target t) of
        Inr info \<Rightarrow>
          let t2 = set_result ''whois'' (simplified_whois info) t1 in
          if print_raises w ''whois'' (simplified_whois info)
          then set_result ''whois'' (PStr ''Lookup failed'') t2
          else t2
      | Inl e \<Rightarrow> set_result ''whois'' (PStr ''Lookup failed'') t1)"

subsection \<open>\<open>get_dns_records\<close>\<close>

definition record_types :: "string list" where
  "record_types = [''A'', ''AAAA'', ''MX'', ''NS'', ''TXT'', ''SOA'', ''CNAME'']"

text \<open>
  The loop \<open>for record_type in record_types\<close>; \<open>except Exception: pass\<close> drops a query
  that raises and goes on with the next type.
\<close>

fun dns_loop ::
  "world \<Rightarrow> string list \<Rightarrow> (key \<times> pyval) list \<Rightarrow> tool \<Rightarrow> (key \<times> pyval) list \<times> tool" where
  "dns_loop w [] dns_results t = (dns_results, t)"
| "dns_loop w (record_type # rest) dns_results t =
     (let t1 = log_call (DnsResolve (target t) record_type) t in
      case dns_resolve w (target t) record_type of
        Inr records \<Rightarrow>
          dns_loop w rest (AList.update (KStr record_type) (PList (map PStr records)) dns_results) t1
      | Inl e \<Rightarrow> dns_loop w rest dns_results t1)"

definition get_dns_records :: "world \<Rightarrow> tool \<Rightarrow> tool" where
  "get_dns_records w t =
     (if is_ip_address (target t) then set_result ''dns_records'' (PStr ''Skipped for IP address'') t
      else
        case dns_loop w record_types [] t of
          (dns_results, t1) \<Rightarrow> set_result ''dns_records'' (PDict dns_results) t1)"

subsection \<open>The thread pool\<close>

text \<open>
  \<^verbatim>\<open>
  with ThreadPoolExecutor(max_workers=10) as executor:
      results = list(executor.map(lambda p: check_port(p), common_ports))
  \<close>
  \<open>executor.map\<close> submits one work item per element, in order. The pool has at most
  \<open>max_workers\<close> worker threads; a free worker takes the oldest pending item, runs it and
  stores its result (or its exception) in the item's future. Which worker finishes when is
  up to the scheduler: a run of the pool is a list of events, \<open>Start\<close> (a free worker takes
  the next pending item) and \<open>Finish i\<close> (the worker running item \<open>i\<close> completes it). An
  event that is not enabled has no successor state.
\<close>

datatype event = Start | Finish nat

record ('a, 'r) pool =
  pending :: "(nat \<times> 'a) list"
  running :: "(nat \<times> 'a) list"
  futures :: "(nat \<times> 'r) list"
  started :: "'a list"

definition pool_init :: "'a list \<Rightarrow> ('a, 'r) pool" where
  "pool_init xs = \<lparr>pending = zip [0..<length xs] xs, running = [], futures = [], started = []\<rparr>"

fun pool_step :: "nat \<Rightarrow> ('a \<Rightarrow> 'r) \<Rightarrow> event \<Rightarrow> ('a, 'r) pool \<Rightarrow> ('a, 'r) pool option" where
  "pool_step max_workers f Start s =
     (case pending s of
        [] \<Rightarrow> None
      | (i, x) # rest \<Rightarrow>
          if length (running s) < max_workers
          then Some (s\<lparr>pending := rest, running := running s @ [(i, x)], started := started s @ [x]\<rparr>)
          else None)"
| "pool_step max_workers f (Finish i) s =
     (case map_of (running s) i of
        None \<Rightarrow> None
      | Some x \<Rightarrow>
          Some (s\<lparr>running := filter (\<lambda>jx. fst jx \<noteq> i) (running s),
                  futures := futures s @ [(i, f x)]\<rparr>))"

fun pool_run ::
  "nat \<Rightarrow> ('a \<Rightarrow> 'r) \<Rightarrow> event list \<Rightarrow> ('a, 'r) pool \<Rightarrow> ('a, 'r) pool option" where
  "pool_run max_workers f [] s = Some s"
| "pool_run max_workers f (e # es) s =
     (case pool_step max_workers f e s of
        None \<Rightarrow> None
      | Some s' \<Rightarrow> pool_run max_workers f es s')"

text \<open>
  \<open>list(executor.map(f, xs))\<close> under the schedule \<open>evs\<close>: when the pool has run every item,
  the futures are read in submission order, whatever the order they completed in. The
  result is \<open>None\<close> when \<open>evs\<close> is not a complete run of the pool. The second component is
  the order in which the items were started.
\<close>

definition executor_map ::
  "nat \<Rightarrow> ('a \<Rightarrow> 'r) \<Rightarrow> 'a list \<Rightarrow> event list \<Rightarrow> ('r list \<times> 'a list) option" where
  "executor_map max_workers f xs evs =
     (case pool_run max_workers f evs (pool_init xs) of
        None \<Rightarrow> None
      | Some s \<Rightarrow>
          if pending s = [] \<and> running s = []
          then map_option (\<lambda>rs. (rs, started s)) (those (map (map_of (futures s)) [0..<length xs]))
          else None)"

text \<open>Reading the results raises the exception of the first item, in order, that raised.\<close>

fun collect :: "(exn + 'a) list \<Rightarrow> exn + 'a list" where
  "collect [] = Inr []"
| "collect (Inl e # rs) = Inl e"
| "collect (Inr x # rs) = (case collect rs of Inl e \<Rightarrow> Inl e | Inr xs \<Rightarrow> Inr (x # xs))"

subsection \<open>\<open>scan_common_ports\<close>\<close>

definition common_ports :: "int list" where
  "common_ports = [21, 22, 23, 25, 53, 80, 110, 115, 135, 139, 143, 443, 445,
                   1433, 3306, 3389, 5060, 5900, 8080, 8443]"

definition max_workers :: nat where
  "max_workers = 10"

text \<open>
  \<^verbatim>\<open>
  def check_port(port):
      sock = socket.socket(socket.AF_INET, socket.SOCK_STREAM)
      sock.settimeout(1)
      result = sock.connect_ex((ip, port))
      sock.close()
      return port, result == 0
  \<close>
  There is no handler: what \<open>connect_ex\<close> raises leaves \<open>check_port\<close>.
\<close>

definition check_port :: "world \<Rightarrow> string \<Rightarrow> int \<Rightarrow> exn + (int \<times> bool)" where
  "check_port w ip port =
     (case connect_ex w ip port of
        Inl e \<Rightarrow> Inl e
      | Inr result \<Rightarrow> Inr (port, result = 0))"

text \<open>
  The loop \<open>for port, is_open in results\<close>. \<open>socket.getservbyport\<close> is guarded by
  \<open>except OSError\<close>.
\<close>

fun port_loop ::
  "world \<Rightarrow> (int \<times> bool) list \<Rightarrow> (key \<times> pyval) list \<Rightarrow> tool \<Rightarrow>
     exn + ((key \<times> pyval) list \<times> tool)" where
  "port_loop w [] open_ports t = Inr (open_ports, t)"
| "port_loop w ((port, is_open) # rest) open_ports t =
     (if is_open then
        let t1 = log_call (Getservbyport port) t in
        case getservbyport w port of
          Inr service \<Rightarrow> port_loop w rest (AList.update (KInt port) (PStr service) open_ports) t1
        | Inl e \<Rightarrow>
            if is_OSError e
            then port_loop w rest (AList.update (KInt port) (PStr ''unknown'') open_ports) t1
            else Inl e
      else port_loop w rest open_ports t)"

text \<open>
  The \<open>with\<close> block: the port results in the order of \<open>common_ports\<close> together with the
  ports whose attempts were started, or the exception that reading the results raises. A
  run that ends in an exception keeps no state: the program stops there. (When a future
  raises, the executor cancels the items no worker has started yet, so the attempts made
  on that path are not those of a complete run of the pool; the exception that comes out
  is the same.)
\<close>

definition probe_ports ::
  "world \<Rightarrow> event list \<Rightarrow> string \<Rightarrow> (exn + ((int \<times> bool) list \<times> int list)) option" where
  "probe_ports w evs ip =
     (case executor_map max_workers (check_port w ip) common_ports evs of
        None \<Rightarrow> None
      | Some (outcomes, begun) \<Rightarrow>
          (case collect outcomes of
             Inl e \<Rightarrow> Some (Inl e)
           | Inr port_results \<Rightarrow> Some (Inr (port_results, begun))))"

text \<open>\<open>if not ip\<close> holds for \<open>None\<close> and for the empty string.\<close>

definition scan_common_ports ::
  "world \<Rightarrow> event list \<Rightarrow> string option \<Rightarrow> tool \<Rightarrow> (exn + tool) option" where
  "scan_common_ports w evs ip_opt t =
     (case ip_opt of
        None \<Rightarrow> Some (Inr (set_result ''port_scan'' (PStr ''Skipped due to DNS resolution failure'') t))
      | Some ip \<Rightarrow>
          if ip = [] then
            Some (Inr (set_result ''port_scan'' (PStr ''Skipped due to DNS resolution failure'') t))
          else
            (case probe_ports w evs ip of
               None \<Rightarrow> None
             | Some (Inl e) \<Rightarrow> Some (Inl e)
             | Some (Inr (port_results, begun)) \<Rightarrow>
                 (case port_loop w port_results [] (t\<lparr>calls := calls t @ map (Connect ip) begun\<rparr>) of
                    Inl e \<Rightarrow> Some (Inl e)
                  | Inr (open_ports, t1) \<Rightarrow>
                      Some (Inr (set_result ''port_scan'' (PDict open_ports) t1)))))"

subsection \<open>\<open>get_http_headers\<close>\<close>

text \<open>
  \<^verbatim>\<open>
  protocols = ["https", "http"]
  for protocol in protocols:
      try:
          url = f"{protocol}://{self.target}"
          response = requests.get(url, timeout=5)
          headers = dict(response.headers)
          self.output["results"][f"{protocol}_headers"] = headers
          print(f"{Fore.GREEN}[+] HTTP Headers ({protocol}):{Style.RESET_ALL}")
          for header, value in headers.items():
              print(f"  {header}: {value}")
          break
      except Exception:
          pass
  \<close>
  The prints stand between the store and the \<open>break\<close>, inside the \<open>try\<close>: when one of them
  raises, the headers stay stored, the handler swallows the exception, the \<open>break\<close> is not
  reached and the loop goes on with the next protocol.
\<close>

fun http_loop :: "world \<Rightarrow> string list \<Rightarrow> tool \<Rightarrow> tool" where
  "http_loop w [] t = t"
| "http_loop w (protocol # rest) t =
     (let url = protocol @ ''://'' @ target t;
          t1 = log_call (HttpGet url 5) t in
      case requests_get w url of
        Inr items \<Rightarrow>
          let headers = PDict (py_dict (map (\<lambda>(h, v). (KStr h, PStr v)) items));
              t2 = set_result (protocol @ ''_headers'') headers t1 in
          if print_raises w (protocol @ ''_headers'') headers then http_loop w rest t2 else t2
      | Inl e \<Rightarrow> http_loop w rest t1)"

definition get_http_headers :: "world \<Rightarrow> tool \<Rightarrow> tool" where
  "get_http_headers w t = http_loop w [''https'', ''http''] t"

subsection \<open>\<open>save_results\<close> and \<open>run_recon\<close>\<close>

definition save_results :: "world \<Rightarrow> tool \<Rightarrow> exn + tool" where
  "save_results w t =
     (let filename = target t @ ''_recon.json'';
          t1 = log_call (OpenWrite filename) t in
      case open_write w filename of
        Some e \<Rightarrow> Inl e
      | None \<Rightarrow> Inr (t1\<lparr>files := files t1 @ [(filename, json_dump (self_output t1))]\<rparr>))"

text \<open>
  \<^verbatim>\<open>
  def run_recon(self):
      ip = self.get_ip()
      self.get_whois()
      self.get_dns_records()
      self.scan_common_ports(ip)
      self.get_http_headers()
      self.save_results()
  \<close>
  \<open>recon_steps\<close> is the run up to \<open>save_results\<close>: its state holds the report that is
  written. The result is \<open>None\<close> when \<open>evs\<close> is not a complete run of the pool the port scan
  uses.
\<close>

definition recon_steps :: "world \<Rightarrow> event list \<Rightarrow> tool \<Rightarrow> (exn + tool) option" where
  "recon_steps w evs t =
     (case get_ip w t of
        Inl e \<Rightarrow> Some (Inl e)
      | Inr (ip, t1) \<Rightarrow>
          (case scan_common_ports w evs ip (get_dns_records w (get_whois w t1)) of
             None \<Rightarrow> None
           | Some (Inl e) \<Rightarrow> Some (Inl e)
           | Some (Inr t2) \<Rightarrow> Some (Inr (get_http_headers w t2))))"

definition run_recon :: "world \<Rightarrow> event list \<Rightarrow> tool \<Rightarrow> (exn + tool) option" where
  "run_recon w evs t =
     (case recon_steps w evs t of
        None \<Rightarrow> None
      | Some (Inl e) \<Rightarrow> Some (Inl e)
      | Some (Inr t1) \<Rightarrow> Some (save_results w t1))"

definition main :: "world \<Rightarrow> event list \<Rightarrow> string \<Rightarrow> (exn + tool) option" where
  "main w evs tgt = run_recon w evs (set_target tgt)"

section \<open>Observations, invariants and examples used in the properties\<close>

text \<open>The ports found open, and the label an open port gets.\<close>

definition open_ports_of :: "world \<Rightarrow> string \<Rightarrow> int list" where
  "open_ports_of w ip = filter (\<lambda>p. connect_ex w ip p = Inr 0) common_ports"

definition service_name :: "world \<Rightarrow> int \<Rightarrow> string" where
  "service_name w p = (case getservbyport w p of Inr service \<Rightarrow> service | Inl e \<Rightarrow> ''unknown'')"

text \<open>
  The ports whose connection attempts are in flight (started and not yet completed) after
  the events \<open>evs\<close> of the pool of the port scan.
\<close>

definition in_flight :: "world \<Rightarrow> string \<Rightarrow> event list \<Rightarrow> int list option" where
  "in_flight w ip evs =
     map_option (\<lambda>s. map snd (running s))
       (pool_run max_workers (check_port w ip) evs (pool_init common_ports))"

text \<open>
  The port scan with the ports probed one after the other, in the order of the list: no
  pool and no schedule.
\<close>

definition sequential_scan :: "world \<Rightarrow> string \<Rightarrow> tool \<Rightarrow> exn + tool" where
  "sequential_scan w ip t =
     (case collect (map (check_port w ip) common_ports) of
        Inl e \<Rightarrow> Inl e
      | Inr port_results \<Rightarrow>
          (case port_loop w port_results [] (t\<lparr>calls := calls t @ map (Connect ip) common_ports\<rparr>) of
             Inl e \<Rightarrow> Inl e
           | Inr (open_ports, t1) \<Rightarrow> Inr (set_result ''port_scan'' (PDict open_ports) t1)))"

fun is_connect :: "call \<Rightarrow> bool" where
  "is_connect (Connect ip p) = True"
| "is_connect _ = False"

text \<open>The keys of the \<open>port_scan\<close> dictionary of a report, in their order.\<close>

definition emitted_ports :: "tool \<Rightarrow> key list" where
  "emitted_ports t =
     (case map_of (results t) (KStr ''port_scan'') of
        Some (PDict d) \<Rightarrow> map fst d
      | _ \<Rightarrow> [])"

text \<open>The record types whose query returned, with their answers.\<close>

definition dns_answers :: "world \<Rightarrow> string \<Rightarrow> string list \<Rightarrow> (key \<times> pyval) list" where
  "dns_answers w tgt rts =
     concat (map (\<lambda>rt. case dns_resolve w tgt rt of
                          Inr records \<Rightarrow> [(KStr rt, PList (map PStr records))]
                        | Inl e \<Rightarrow> []) rts)"

text \<open>What \<open>get_whois\<close> and \<open>get_dns_records\<close> store for a target.\<close>

definition whois_value :: "world \<Rightarrow> string \<Rightarrow> pyval" where
  "whois_value w tgt =
     (case whois_lookup w tgt of
        Inr info \<Rightarrow>
          if print_raises w ''whois'' (simplified_whois info) then PStr ''Lookup failed''
          else simplified_whois info
      | Inl e \<Rightarrow> PStr ''Lookup failed'')"

definition dns_value :: "world \<Rightarrow> string \<Rightarrow> pyval" where
  "dns_value w tgt =
     (if is_ip_address tgt then PStr ''Skipped for IP address''
      else PDict (dns_answers w tgt record_types))"

definition dns_calls :: "string \<Rightarrow> call list" where
  "dns_calls tgt = (if is_ip_address tgt then [] else map (DnsResolve tgt) record_types)"

text \<open>The URL \<open>get_http_headers\<close> requests for a protocol.\<close>

definition url_of :: "string \<Rightarrow> string \<Rightarrow> string" where
  "url_of protocol tgt = protocol @ ''://'' @ tgt"

definition headers_dict :: "(string \<times> string) list \<Rightarrow> pyval" where
  "headers_dict items = PDict (py_dict (map (\<lambda>(h, v). (KStr h, PStr v)) items))"

text \<open>
  The report as a function of the world and the target, with no schedule in it: the address
  the port scan is given, what each step stores and the calls each step makes.
\<close>

definition resolved_ip :: "world \<Rightarrow> string \<Rightarrow> string option" where
  "resolved_ip w tgt =
     (if is_ip_address tgt then Some tgt
      else (case gethostbyname w tgt of Inr ip \<Rightarrow> Some ip | Inl e \<Rightarrow> None))"

definition ip_result :: "world \<Rightarrow> string \<Rightarrow> (key \<times> pyval) list" where
  "ip_result w tgt =
     (if is_ip_address tgt then []
      else [(KStr ''ip_address'',
             PStr (case gethostbyname w tgt of Inr ip \<Rightarrow> ip | Inl e \<Rightarrow> ''Not found''))])"

definition ip_calls :: "string \<Rightarrow> call list" where
  "ip_calls tgt = (if is_ip_address tgt then [] else [Gethostbyname tgt])"

definition port_scan_value :: "world \<Rightarrow> string option \<Rightarrow> pyval" where
  "port_scan_value w ip_opt =
     (case ip_opt of
        None \<Rightarrow> PStr ''Skipped due to DNS resolution failure''
      | Some ip \<Rightarrow>
          if ip = [] then PStr ''Skipped due to DNS resolution failure''
          else PDict (map (\<lambda>p. (KInt p, PStr (service_name w p))) (open_ports_of w ip)))"

definition port_scan_calls :: "world \<Rightarrow> string option \<Rightarrow> call list" where
  "port_scan_calls w ip_opt =
     (case ip_opt of
        None \<Rightarrow> []
      | Some ip \<Rightarrow>
          if ip = [] then []
          else map (Connect ip) common_ports @ map Getservbyport (open_ports_of w ip))"

definition http_requested :: "world \<Rightarrow> string \<Rightarrow> bool" where
  \<comment> \<open>whether the loop goes on to http: the https request raised, or a print of its headers did\<close>
  "http_requested w tgt =
     (case requests_get w (url_of ''https'' tgt) of
        Inr items \<Rightarrow> print_raises w ''https_headers'' (headers_dict items)
      | Inl e \<Rightarrow> True)"

definition https_update :: "world \<Rightarrow> string \<Rightarrow> (key \<times> pyval) list \<Rightarrow> (key \<times> pyval) list" where
  "https_update w tgt rs =
     (case requests_get w (url_of ''https'' tgt) of
        Inr items \<Rightarrow> AList.update (KStr ''https_headers'') (headers_dict items) rs
      | Inl e \<Rightarrow> rs)"

definition http_update :: "world \<Rightarrow> string \<Rightarrow> (key \<times> pyval) list \<Rightarrow> (key \<times> pyval) list" where
  "http_update w tgt rs =
     (if http_requested w tgt then
        (case requests_get w (url_of ''http'' tgt) of
           Inr items \<Rightarrow> AList.update (KStr ''http_headers'') (headers_dict items) rs
         | Inl e \<Rightarrow> rs)
      else rs)"

definition headers_update :: "world \<Rightarrow> string \<Rightarrow> (key \<times> pyval) list \<Rightarrow> (key \<times> pyval) list" where
  "headers_update w tgt rs = http_update w tgt (https_update w tgt rs)"

definition http_calls :: "world \<Rightarrow> string \<Rightarrow> call list" where
  "http_calls w tgt =
     HttpGet (url_of ''https'' tgt) 5 #
     (if http_requested w tgt then [HttpGet (url_of ''http'' tgt) 5] else [])"

definition report_results :: "world \<Rightarrow> string \<Rightarrow> (key \<times> pyval) list" where
  "report_results w tgt =
     headers_update w tgt
       (AList.update (KStr ''port_scan'') (port_scan_value w (resolved_ip w tgt))
         (AList.update (KStr ''dns_records'') (dns_value w tgt)
           (AList.update (KStr ''whois'') (whois_value w tgt) (ip_result w tgt))))"

definition report_calls :: "world \<Rightarrow> string \<Rightarrow> call list" where
  "report_calls w tgt =
     ip_calls tgt @ [Whois tgt] @ dns_calls tgt @ port_scan_calls w (resolved_ip w tgt) @
     http_calls w tgt"



text \<open>A value with every dictionary key replaced by its text.\<close>

primrec str_keys :: "pyval \<Rightarrow> pyval" where
  "str_keys PNone = PNone"
| "str_keys (PStr s) = PStr s"
| "str_keys (PList vs) = PList (map str_keys vs)"
| "str_keys (PDict kvs) = PDict (map (map_prod (\<lambda>k. KStr (key_str k)) str_keys) kvs)"

text \<open>
  Well-formed values: in every dictionary the texts of the keys differ, as they do in the
  values the program builds. In the \<open>results\<close> dictionary the keys are strings.
\<close>

primrec wf_py :: "pyval \<Rightarrow> bool" where
  "wf_py PNone = True"
| "wf_py (PStr s) = True"
| "wf_py (PList vs) = list_all wf_py vs"
| "wf_py (PDict kvs) =
     (distinct (map (key_str \<circ> fst) kvs) \<and> list_all (pred_prod (\<lambda>k. True) wf_py) kvs)"

fun is_KStr :: "key \<Rightarrow> bool" where
  "is_KStr (KStr s) = True"
| "is_KStr (KInt i) = False"

definition wf_results :: "(key \<times> pyval) list \<Rightarrow> bool" where
  "wf_results al \<longleftrightarrow>
     list_all (\<lambda>kv. is_KStr (fst kv) \<and> wf_py (snd kv)) al \<and> distinct (map fst al)"

text \<open>
  A \<open>results\<close> dictionary whose entries other than \<open>port_scan\<close> are unchanged when
  their keys are replaced by their texts.
\<close>

definition others_fixed :: "(key \<times> pyval) list \<Rightarrow> bool" where
  "others_fixed al \<longleftrightarrow>
     (\<forall>(k, v)\<in>set al. is_KStr k \<and> (k \<noteq> KStr ''port_scan'' \<longrightarrow> str_keys v = v))"

text \<open>The invariant of the pool that was started on the items \<open>xs\<close>.\<close>

definition pool_inv :: "('a \<Rightarrow> 'r) \<Rightarrow> 'a list \<Rightarrow> ('a, 'r) pool \<Rightarrow> bool" where
  "pool_inv f xs s \<longleftrightarrow>
     (\<exists>k\<le>length xs.
        pending s = drop k (zip [0..<length xs] xs) \<and>
        started s = take k xs \<and>
        distinct (map fst (running s) @ map fst (futures s)) \<and>
        set (map fst (running s)) \<union> set (map fst (futures s)) = {0..<k}) \<and>
     (\<forall>(i, x) \<in> set (running s). i < length xs \<and> x = xs ! i) \<and>
     (\<forall>(i, r) \<in> set (futures s). i < length xs \<and> r = f (xs ! i))"

text \<open>
  Two schedules: one worker after the other, and two batches of ten whose attempts complete
  in the reverse of the order they started in.
\<close>

definition in_order :: "nat \<Rightarrow> event list" where
  "in_order n = concat (map (\<lambda>i. [Start, Finish i]) [0..<n])"

definition batches_reversed :: "event list" where
  "batches_reversed =
     replicate 10 Start @ map Finish (rev [0..<10]) @
     replicate 10 Start @ map Finish (rev [10..<20])"

text \<open>
  Example worlds. In \<open>world_up\<close> the name resolves, ports 80 and 443 accept connections and
  the site answers over https. In \<open>world_down\<close> every lookup fails and every port refuses.
  In \<open>world_idna\<close> the resolver call raises an exception that is not a \<open>gaierror\<close>, and in
  \<open>world_no_host\<close> \<open>connect_ex\<close> raises because the address cannot be looked up. In
  \<open>world_print_raises\<close> both requests return a header whose value the standard output
  cannot show, so the prints of the headers raise.
\<close>

definition example_whois :: whois_entry where
  "example_whois =
     \<lparr>registrar = WStr ''Example Registrar'', creation_date_str = ''1995-08-14 04:00:00'',
      expiration_date_str = ''2026-08-13 04:00:00'',
      name_servers = WList [''a.iana-servers.net'', ''b.iana-servers.net''], emails = WNone\<rparr>"

definition world_up :: world where
  "world_up =
     \<lparr>gethostbyname = (\<lambda>h. Inr ''93.184.216.34''),
      whois_lookup = (\<lambda>h. Inr example_whois),
      dns_resolve = (\<lambda>h rt. if rt = ''A'' then Inr [''93.184.216.34''] else Inl OtherException),
      connect_ex = (\<lambda>ip p. if p = 80 \<or> p = 443 then Inr 0 else Inr 111),
      getservbyport = (\<lambda>p. if p = 80 then Inr ''http'' else Inl OSError),
      requests_get = (\<lambda>url. if url = ''https://example.com''
                             then Inr [(''Server'', ''ECS''), (''Content-Type'', ''text/html'')]
                             else Inl OSError),
      open_write = (\<lambda>f. None),
      print_raises = (\<lambda>k v. False)\<rparr>"

definition world_down :: world where
  "world_down =
     \<lparr>gethostbyname = (\<lambda>h. Inl Gaierror),
      whois_lookup = (\<lambda>h. Inl OtherException),
      dns_resolve = (\<lambda>h rt. Inl OtherException),
      connect_ex = (\<lambda>ip p. Inr 111),
      getservbyport = (\<lambda>p. Inl OSError),
      requests_get = (\<lambda>url. Inl OSError),
      open_write = (\<lambda>f. None),
      print_raises = (\<lambda>k v. False)\<rparr>"

definition report_down :: tool where
  \<comment> \<open>the report of the run on \<open>example.test\<close> in \<open>world_down\<close>\<close>
  "report_down =
     \<lparr>target = ''example.test'',
      results = [(KStr ''ip_address'', PStr ''Not found''),
                 (KStr ''whois'', PStr ''Lookup failed''),
                 (KStr ''dns_records'', PDict []),
                 (KStr ''port_scan'', PStr ''Skipped due to DNS resolution failure'')],
      calls = [Gethostbyname ''example.test'', Whois ''example.test'',
               DnsResolve ''example.test'' ''A'', DnsResolve ''example.test'' ''AAAA'',
               DnsResolve ''example.test'' ''MX'', DnsResolve ''example.test'' ''NS'',
               DnsResolve ''example.test'' ''TXT'', DnsResolve ''example.test'' ''SOA'',
               DnsResolve ''example.test'' ''CNAME'',
               HttpGet ''https://example.test'' 5, HttpGet ''http://example.test'' 5],
      files = []\<rparr>"

definition world_idna :: world where
  "world_idna = world_down\<lparr>gethostbyname := (\<lambda>h. Inl OtherException)\<rparr>"

definition world_no_host :: world where
  "world_no_host = world_down\<lparr>connect_ex := (\<lambda>ip p. Inl Gaierror)\<rparr>"


definition world_print_raises :: world where
  \<comment> \<open>both requests return; the standard output cannot show the copyright sign\<close>
  "world_print_raises =
     world_down\<lparr>requests_get := (\<lambda>url. Inr [(''Server'', [CHR 0xA9])]),
                 print_raises := (\<lambda>k v. True)\<rparr>"

section \<open>The classifier against the dotted-quad pattern\<close>

text \<open>What the pieces of the matcher accept.\<close>

lemma more_digits_iff:
  "r \<in> set (more_digits n s) \<longleftrightarrow> (\<exists>g. s = g @ r \<and> length g \<le> n \<and> list_all is_digit g)"
proof (induction n s rule: more_digits.induct)
  case (1 s)
  then show ?case by auto
next
  case (2 n)
  then show ?case by auto
next
  case (3 n c cs)
  show ?case
  proof (cases "is_digit c")
    case True
    have "(\<exists>g. c # cs = g @ r \<and> length g \<le> Suc n \<and> list_all is_digit g) \<longleftrightarrow>
          (r = c # cs \<or> (\<exists>g. cs = g @ r \<and> length g \<le> n \<and> list_all is_digit g))"
      (is "?L \<longleftrightarrow> ?R")
    proof
      assume ?L
      then obtain g where g: "c # cs = g @ r" "length g \<le> Suc n" "list_all is_digit g" by blast
      show ?R
      proof (cases g)
        case Nil
        with g show ?thesis by simp
      next
        case (Cons x g')
        with g have "cs = g' @ r" "length g' \<le> n" "list_all is_digit g'" by auto
        then show ?thesis by blast
      qed
    next
      assume ?R
      then show ?L
      proof
        assume "r = c # cs"
        then have "c # cs = [] @ r \<and> length ([]::string) \<le> Suc n \<and> list_all is_digit []" by simp
        then show ?L by blast
      next
        assume "\<exists>g. cs = g @ r \<and> length g \<le> n \<and> list_all is_digit g"
        then obtain g where "cs = g @ r" "length g \<le> n" "list_all is_digit g" by blast
        with True have "c # cs = (c # g) @ r \<and> length (c # g) \<le> Suc n \<and> list_all is_digit (c # g)"
          by simp
        then show ?L by blast
      qed
    qed
    with True 3 show ?thesis by auto
  next
    case False
    have "(\<exists>g. c # cs = g @ r \<and> length g \<le> Suc n \<and> list_all is_digit g) \<longleftrightarrow> r = c # cs"
    proof
      assume "\<exists>g. c # cs = g @ r \<and> length g \<le> Suc n \<and> list_all is_digit g"
      then obtain g where g: "c # cs = g @ r" "list_all is_digit g" by blast
      with False show "r = c # cs" by (cases g) auto
    next
      assume "r = c # cs"
      then have "c # cs = [] @ r \<and> length ([]::string) \<le> Suc n \<and> list_all is_digit []" by simp
      then show "\<exists>g. c # cs = g @ r \<and> length g \<le> Suc n \<and> list_all is_digit g" by blast
    qed
    with False show ?thesis by auto
  qed
qed

lemma re_digits_1_3_iff:
  "r \<in> set (re_digits_1_3 s) \<longleftrightarrow> (\<exists>g. s = g @ r \<and> digit_group g)"
proof
  assume "r \<in> set (re_digits_1_3 s)"
  then obtain c cs where s: "s = c # cs" "is_digit c" "r \<in> set (more_digits 2 cs)"
    by (auto simp: re_digits_1_3_def split: list.splits if_splits)
  then obtain g where "cs = g @ r" "length g \<le> 2" "list_all is_digit g"
    using more_digits_iff by blast
  with s have "s = (c # g) @ r \<and> digit_group (c # g)" by (simp add: digit_group_def)
  then show "\<exists>g. s = g @ r \<and> digit_group g" by blast
next
  assume "\<exists>g. s = g @ r \<and> digit_group g"
  then obtain g where g: "s = g @ r" "digit_group g" by blast
  then obtain c g' where "g = c # g'" by (cases g) (auto simp: digit_group_def)
  with g have "s = c # (g' @ r)" "is_digit c" "length g' \<le> 2" "list_all is_digit g'"
    by (auto simp: digit_group_def)
  moreover from this have "r \<in> set (more_digits 2 (g' @ r))"
    using more_digits_iff by blast
  ultimately show "r \<in> set (re_digits_1_3 s)" by (simp add: re_digits_1_3_def)
qed

lemma re_dot_iff: "r \<in> set (re_dot s) \<longleftrightarrow> s = CHR ''.'' # r"
  by (auto simp: re_dot_def split: list.splits)

lemma re_group_iff:
  "r \<in> set (re_group s) \<longleftrightarrow> (\<exists>g. s = g @ CHR ''.'' # r \<and> digit_group g)"
  by (auto simp: re_group_def re_digits_1_3_iff re_dot_iff)

lemma is_ip_address_iff:
  "is_ip_address s \<longleftrightarrow>
     (\<exists>a b c d r. s = a @ CHR ''.'' # b @ CHR ''.'' # c @ CHR ''.'' # d @ r \<and>
        digit_group a \<and> digit_group b \<and> digit_group c \<and> digit_group d \<and> re_end r)"
  unfolding is_ip_address_def list_ex_iff
  by (simp add: re_group_iff re_digits_1_3_iff Bex_def) blast


lemma split_on_nonempty: "split_on sep s \<noteq> []"
  by (induction s) (auto split: list.splits)

lemma split_on_nosep: "sep \<notin> set g \<Longrightarrow> split_on sep g = [g]"
  by (induction g) auto

lemma split_on_append: "sep \<notin> set g \<Longrightarrow> split_on sep (g @ sep # r) = g # split_on sep r"
  by (induction g) auto

lemma split_on_ConsD:
  "split_on sep s = g # gs \<Longrightarrow>
     sep \<notin> set g \<and> (if gs = [] then s = g else \<exists>r. s = g @ sep # r \<and> split_on sep r = gs)"
proof (induction s arbitrary: g gs)
  case Nil
  then show ?case by auto
next
  case (Cons c cs)
  show ?case
  proof (cases "c = sep")
    case True
    with Cons.prems have "g = []" "split_on sep cs = gs" by auto
    with True show ?thesis using split_on_nonempty [of sep cs] by auto
  next
    case False
    obtain h hs where h: "split_on sep cs = h # hs"
      using split_on_nonempty [of sep cs] by (cases "split_on sep cs") auto
    with False Cons.prems have g: "g = c # h" "gs = hs" by auto
    from Cons.IH [OF h] have "sep \<notin> set h"
      and "if hs = [] then cs = h else \<exists>r. cs = h @ sep # r \<and> split_on sep r = hs" by auto
    with False g show ?thesis by auto
  qed
qed

lemma is_digit_not_dot: "\<not> is_digit CHR ''.''"
  by (simp add: is_digit_def)

lemma digit_group_no_dot: "digit_group g \<Longrightarrow> CHR ''.'' \<notin> set g"
  using is_digit_not_dot unfolding digit_group_def list_all_iff by blast

lemma length4D: "length xs = 4 \<Longrightarrow> \<exists>a b c d. xs = [a, b, c, d]"
proof -
  assume "length xs = 4"
  then have "length xs = Suc (Suc (Suc (Suc 0)))" by simp
  then show ?thesis by (auto simp: length_Suc_conv)
qed

lemma dotted_quad_iff:
  "dotted_quad s \<longleftrightarrow>
     (\<exists>a b c d. s = a @ CHR ''.'' # b @ CHR ''.'' # c @ CHR ''.'' # d \<and>
        digit_group a \<and> digit_group b \<and> digit_group c \<and> digit_group d)"
proof
  assume dq: "dotted_quad s"
  then obtain a b c d where sp: "split_on CHR ''.'' s = [a, b, c, d]"
    using length4D [of "split_on CHR ''.'' s"] by (auto simp: dotted_quad_def)
  with dq have dg: "digit_group a" "digit_group b" "digit_group c" "digit_group d"
    by (auto simp: dotted_quad_def)
  from split_on_ConsD [OF sp] obtain r1 where
    r1: "s = a @ CHR ''.'' # r1" "split_on CHR ''.'' r1 = [b, c, d]" by auto
  from split_on_ConsD [OF r1(2)] obtain r2 where
    r2: "r1 = b @ CHR ''.'' # r2" "split_on CHR ''.'' r2 = [c, d]" by auto
  from split_on_ConsD [OF r2(2)] obtain r3 where
    r3: "r2 = c @ CHR ''.'' # r3" "split_on CHR ''.'' r3 = [d]" by auto
  from split_on_ConsD [OF r3(2)] have "r3 = d" by auto
  with r1 r2 r3 have "s = a @ CHR ''.'' # b @ CHR ''.'' # c @ CHR ''.'' # d" by simp
  with dg show "\<exists>a b c d. s = a @ CHR ''.'' # b @ CHR ''.'' # c @ CHR ''.'' # d \<and>
        digit_group a \<and> digit_group b \<and> digit_group c \<and> digit_group d" by blast
next
  assume "\<exists>a b c d. s = a @ CHR ''.'' # b @ CHR ''.'' # c @ CHR ''.'' # d \<and>
        digit_group a \<and> digit_group b \<and> digit_group c \<and> digit_group d"
  then obtain a b c d where s: "s = a @ CHR ''.'' # b @ CHR ''.'' # c @ CHR ''.'' # d"
    and dg: "digit_group a" "digit_group b" "digit_group c" "digit_group d" by blast
  have "split_on CHR ''.'' s = [a, b, c, d]"
    using dg by (simp add: s split_on_append split_on_nosep digit_group_no_dot)
  with dg show "dotted_quad s" by (simp add: dotted_quad_def)
qed

lemma is_ip_address_prefix:
  "is_ip_address s \<longleftrightarrow> (\<exists>x r. s = x @ r \<and> dotted_quad x \<and> re_end r)"
proof
  assume "is_ip_address s"
  then obtain a b c d r where
    s: "s = a @ CHR ''.'' # b @ CHR ''.'' # c @ CHR ''.'' # d @ r" and
    dg: "digit_group a" "digit_group b" "digit_group c" "digit_group d" and r: "re_end r"
    unfolding is_ip_address_iff by blast
  let ?x = "a @ CHR ''.'' # b @ CHR ''.'' # c @ CHR ''.'' # d"
  from dg have "dotted_quad ?x" unfolding dotted_quad_iff by blast
  moreover from s have "s = ?x @ r" by simp
  ultimately show "\<exists>x r. s = x @ r \<and> dotted_quad x \<and> re_end r" using r by blast
next
  assume "\<exists>x r. s = x @ r \<and> dotted_quad x \<and> re_end r"
  then obtain x r where s: "s = x @ r" and x: "dotted_quad x" and r: "re_end r" by blast
  from x obtain a b c d where
    "x = a @ CHR ''.'' # b @ CHR ''.'' # c @ CHR ''.'' # d" and
    dg: "digit_group a" "digit_group b" "digit_group c" "digit_group d"
    unfolding dotted_quad_iff by blast
  with s have "s = a @ CHR ''.'' # b @ CHR ''.'' # c @ CHR ''.'' # d @ r" by simp
  with dg r show "is_ip_address s" unfolding is_ip_address_iff by blast
qed

lemma is_ip_address_iff_dotted_quad:
  "is_ip_address s \<longleftrightarrow> dotted_quad s \<or> (\<exists>t. s = t @ [newline] \<and> dotted_quad t)"
proof
  assume "is_ip_address s"
  then obtain x r where s: "s = x @ r" and x: "dotted_quad x" and r: "r = [] \<or> r = [newline]"
    unfolding is_ip_address_prefix re_end_def by blast
  from r show "dotted_quad s \<or> (\<exists>t. s = t @ [newline] \<and> dotted_quad t)"
  proof
    assume "r = []"
    with s x show ?thesis by simp
  next
    assume "r = [newline]"
    with s x show ?thesis by blast
  qed
next
  assume "dotted_quad s \<or> (\<exists>t. s = t @ [newline] \<and> dotted_quad t)"
  then show "is_ip_address s"
  proof
    assume "dotted_quad s"
    then have "s = s @ [] \<and> dotted_quad s \<and> re_end []" by (simp add: re_end_def)
    then show ?thesis unfolding is_ip_address_prefix by blast
  next
    assume "\<exists>t. s = t @ [newline] \<and> dotted_quad t"
    then obtain t where "s = t @ [newline] \<and> dotted_quad t \<and> re_end [newline]"
      by (auto simp: re_end_def)
    then show ?thesis unfolding is_ip_address_prefix by blast
  qed
qed


lemma dotted_quad_imp_is_ip_address: "dotted_quad s \<Longrightarrow> is_ip_address s"
  by (simp add: is_ip_address_iff_dotted_quad)

lemma is_ip_address_999: "is_ip_address ''999.999.999.999''"
  by code_simp

text \<open>
  C9. The classifier accepts a string exactly when the string is a dotted quad, or is a
  dotted quad followed by one newline (lemma \<open>is_ip_address_iff_dotted_quad\<close>): \<open>$\<close>
  also matches before a final newline. So the target \<open>1.2.3.4\<close> followed by a newline is
  classified as an address although it is not four digit groups separated by periods;
  there is no range check, \<open>999.999.999.999\<close> is accepted.
\<close>

theorem is_ip_address_accepts_trailing_newline:
  "is_ip_address (''1.2.3.4'' @ [newline]) \<and> \<not> dotted_quad (''1.2.3.4'' @ [newline]) \<and>
   is_ip_address ''999.999.999.999'' \<and> dotted_quad ''999.999.999.999''"
  by code_simp

section \<open>The resolver\<close>

lemma not_ip_example_test: "\<not> is_ip_address ''example.test''"
  by code_simp

lemma is_ip_example_address: "is_ip_address ''93.184.216.34''"
  by code_simp

text \<open>
  C6 (amended). For a target classified as an address, \<open>get_ip\<close> returns the target and
  leaves the state as it was: no call is made. For any other target it makes the one
  resolver call; when that call raises \<open>socket.gaierror\<close>, \<open>get_ip\<close> returns \<open>None\<close>
  without raising and records \<open>"Not found"\<close> under \<open>ip_address\<close>.
\<close>

theorem get_ip_address_or_gaierror:
  "(is_ip_address (target t) \<longrightarrow> get_ip w t = Inr (Some (target t), t)) \<and>
   (\<not> is_ip_address (target t) \<and> gethostbyname w (target t) = Inl Gaierror \<longrightarrow>
      get_ip w t =
        Inr (None, t\<lparr>results := AList.update (KStr ''ip_address'') (PStr ''Not found'') (results t),
                      calls := calls t @ [Gethostbyname (target t)]\<rparr>))"
proof (intro conjI impI)
  assume "is_ip_address (target t)"
  then show "get_ip w t = Inr (Some (target t), t)"
    by (simp add: get_ip_def)
next
  assume a: "\<not> is_ip_address (target t) \<and> gethostbyname w (target t) = Inl Gaierror"
  let ?t1 = "log_call (Gethostbyname (target t)) t"
  from a have "get_ip w t = Inr (None, set_result ''ip_address'' (PStr ''Not found'') ?t1)"
    by (simp add: get_ip_def)
  then show "get_ip w t =
      Inr (None, t\<lparr>results := AList.update (KStr ''ip_address'') (PStr ''Not found'') (results t),
                    calls := calls t @ [Gethostbyname (target t)]\<rparr>)"
    by (simp add: set_result_def log_call_def)
qed

theorem get_ip_address_or_gaierror_witness:
  "get_ip world_down (set_target ''93.184.216.34'') =
     Inr (Some ''93.184.216.34'', set_target ''93.184.216.34'') \<and>
   get_ip world_down (set_target ''example.test'') =
     Inr (None, \<lparr>target = ''example.test'', results = [(KStr ''ip_address'', PStr ''Not found'')],
                 calls = [Gethostbyname ''example.test''], files = []\<rparr>)"
  using get_ip_address_or_gaierror [of "set_target ''93.184.216.34''" world_down]
    get_ip_address_or_gaierror [of "set_target ''example.test''" world_down]
    not_ip_example_test is_ip_example_address
  by (simp add: set_target_def world_down_def)

text \<open>
  The claim as the specification states it, for every failure of the resolution call, does
  not hold: an exception of the call that is not a \<open>gaierror\<close> leaves \<open>get_ip\<close>, and the run
  ends with it.
\<close>

lemma not_ip_empty_label: "\<not> is_ip_address ''a..b''"
  by code_simp

theorem get_ip_other_exception_propagates:
  "\<not> is_ip_address ''a..b'' \<and>
   gethostbyname world_idna ''a..b'' = Inl OtherException \<and>
   get_ip world_idna (set_target ''a..b'') = Inl OtherException \<and>
   main world_idna [] ''a..b'' = Some (Inl OtherException)"
  using not_ip_empty_label
  by (simp add: get_ip_def main_def run_recon_def recon_steps_def set_target_def
      world_idna_def world_down_def log_call_def)

section \<open>The DNS record collector\<close>

lemma update_fresh: "k \<notin> fst ` set al \<Longrightarrow> AList.update k v al = al @ [(k, v)]"
  by (induction al) auto

lemma target_log_call [simp]: "target (log_call c t) = target t"
  by (simp add: log_call_def)

lemma dns_loop_eq:
  "distinct rts \<Longrightarrow> \<forall>rt\<in>set rts. KStr rt \<notin> fst ` set acc \<Longrightarrow>
   dns_loop w rts acc t =
     (acc @ dns_answers w (target t) rts,
      t\<lparr>calls := calls t @ map (DnsResolve (target t)) rts\<rparr>)"
proof (induction rts arbitrary: acc t)
  case Nil
  then show ?case by (simp add: dns_answers_def)
next
  case (Cons rt rts)
  let ?t1 = "log_call (DnsResolve (target t) rt) t"
  show ?case
  proof (cases "dns_resolve w (target t) rt")
    case (Inl e)
    from Cons.prems have "distinct rts" "\<forall>r\<in>set rts. KStr r \<notin> fst ` set acc" by auto
    from Cons.IH [OF this, of ?t1] Inl show ?thesis
      by (simp add: dns_answers_def log_call_def)
  next
    case (Inr records)
    let ?acc = "AList.update (KStr rt) (PList (map PStr records)) acc"
    from Cons.prems have fresh: "KStr rt \<notin> fst ` set acc" by simp
    then have acc: "?acc = acc @ [(KStr rt, PList (map PStr records))]" by (rule update_fresh)
    from Cons.prems have "distinct rts" "\<forall>r\<in>set rts. KStr r \<notin> fst ` set ?acc"
      by (auto simp: acc)
    from Cons.IH [OF this, of ?t1] Inr show ?thesis
      by (simp add: dns_answers_def log_call_def acc)
  qed
qed

lemma map_of_dns_answers_failed:
  "isl (dns_resolve w tgt rt) \<Longrightarrow> map_of (dns_answers w tgt rts) (KStr rt) = None"
  by (induction rts) (auto simp: dns_answers_def split: sum.splits)

lemma map_of_dns_answers_returned:
  "rt \<in> set rts \<Longrightarrow> dns_resolve w tgt rt = Inr records \<Longrightarrow>
   map_of (dns_answers w tgt rts) (KStr rt) = Some (PList (map PStr records))"
  by (induction rts) (auto simp: dns_answers_def split: sum.splits)

lemma distinct_record_types: "distinct record_types"
  by (simp add: record_types_def)

lemma get_dns_records_eq:
  "get_dns_records w t =
     t\<lparr>results := AList.update (KStr ''dns_records'') (dns_value w (target t)) (results t),
       calls := calls t @ dns_calls (target t)\<rparr>"
proof (cases "is_ip_address (target t)")
  case True
  then show ?thesis
    by (simp add: get_dns_records_def set_result_def dns_value_def dns_calls_def)
next
  case False
  have "dns_loop w record_types [] t =
      ([] @ dns_answers w (target t) record_types,
       t\<lparr>calls := calls t @ map (DnsResolve (target t)) record_types\<rparr>)"
    by (rule dns_loop_eq) (simp_all add: distinct_record_types)
  with False show ?thesis
    by (simp add: get_dns_records_def set_result_def dns_value_def dns_calls_def)
qed

text \<open>
  C8. For a target classified as an address the collector makes no call and stores the
  marker. For any other target it makes one query for each of the seven record types, in
  their order, and stores the mapping of the types whose query returned: a type whose
  query raised is not a key of the mapping. The collector itself never raises.
\<close>

theorem get_dns_records_skips_or_queries_each_type:
  "(is_ip_address (target t) \<longrightarrow>
      get_dns_records w t =
        t\<lparr>results := AList.update (KStr ''dns_records'') (PStr ''Skipped for IP address'') (results t)\<rparr>) \<and>
   (\<not> is_ip_address (target t) \<longrightarrow>
      get_dns_records w t =
        t\<lparr>results := AList.update (KStr ''dns_records'')
                       (PDict (dns_answers w (target t) record_types)) (results t),
          calls := calls t @ map (DnsResolve (target t)) record_types\<rparr> \<and>
      length (map (DnsResolve (target t)) record_types) = 7 \<and>
      (\<forall>rt. isl (dns_resolve w (target t) rt) \<longrightarrow>
         map_of (dns_answers w (target t) record_types) (KStr rt) = None) \<and>
      (\<forall>rt records. rt \<in> set record_types \<and> dns_resolve w (target t) rt = Inr records \<longrightarrow>
         map_of (dns_answers w (target t) record_types) (KStr rt) = Some (PList (map PStr records))))"
proof (intro conjI impI allI)
  assume "is_ip_address (target t)"
  then show "get_dns_records w t =
      t\<lparr>results := AList.update (KStr ''dns_records'') (PStr ''Skipped for IP address'') (results t)\<rparr>"
    by (simp add: get_dns_records_eq dns_value_def dns_calls_def)
next
  assume "\<not> is_ip_address (target t)"
  then show "get_dns_records w t =
      t\<lparr>results := AList.update (KStr ''dns_records'')
                     (PDict (dns_answers w (target t) record_types)) (results t),
        calls := calls t @ map (DnsResolve (target t)) record_types\<rparr>"
    by (simp add: get_dns_records_eq dns_value_def dns_calls_def)
next
  show "length (map (DnsResolve (target t)) record_types) = 7"
    by (simp add: record_types_def)
next
  fix rt
  assume "isl (dns_resolve w (target t) rt)"
  then show "map_of (dns_answers w (target t) record_types) (KStr rt) = None"
    by (rule map_of_dns_answers_failed)
next
  fix rt records
  assume "rt \<in> set record_types \<and> dns_resolve w (target t) rt = Inr records"
  then show "map_of (dns_answers w (target t) record_types) (KStr rt) = Some (PList (map PStr records))"
    by (simp add: map_of_dns_answers_returned)
qed

theorem get_dns_records_skips_or_queries_each_type_witness:
  "get_dns_records world_up (set_target ''93.184.216.34'') =
     \<lparr>target = ''93.184.216.34'',
      results = [(KStr ''dns_records'', PStr ''Skipped for IP address'')],
      calls = [], files = []\<rparr> \<and>
   get_dns_records world_up (set_target ''example.test'') =
     \<lparr>target = ''example.test'',
      results = [(KStr ''dns_records'', PDict [(KStr ''A'', PList [PStr ''93.184.216.34''])])],
      calls = [DnsResolve ''example.test'' ''A'', DnsResolve ''example.test'' ''AAAA'',
               DnsResolve ''example.test'' ''MX'', DnsResolve ''example.test'' ''NS'',
               DnsResolve ''example.test'' ''TXT'', DnsResolve ''example.test'' ''SOA'',
               DnsResolve ''example.test'' ''CNAME''],
      files = []\<rparr> \<and>
   isl (dns_resolve world_up ''example.test'' ''MX'') \<and>
   map_of (dns_answers world_up ''example.test'' record_types) (KStr ''MX'') = None"
  using get_dns_records_skips_or_queries_each_type [of "set_target ''93.184.216.34''" world_up]
    get_dns_records_skips_or_queries_each_type [of "set_target ''example.test''" world_up]
    not_ip_example_test is_ip_example_address
  by (simp add: set_target_def world_up_def dns_answers_def record_types_def)

section \<open>The HTTP header collector\<close>

lemma get_http_headers_eq:
  "get_http_headers w t =
     t\<lparr>results := headers_update w (target t) (results t),
       calls := calls t @ http_calls w (target t)\<rparr>"
proof (cases "requests_get w (url_of ''https'' (target t))")
  case https: (Inl e)
  then show ?thesis
    by (cases "requests_get w (url_of ''http'' (target t))")
      (simp_all add: get_http_headers_def url_of_def headers_dict_def set_result_def
        log_call_def Let_def headers_update_def https_update_def http_update_def
        http_requested_def http_calls_def)
next
  case https: (Inr items)
  show ?thesis
  proof (cases "print_raises w ''https_headers'' (headers_dict items)")
    case False
    with https show ?thesis
      by (simp add: get_http_headers_def url_of_def headers_dict_def set_result_def
          log_call_def Let_def headers_update_def https_update_def http_update_def
          http_requested_def http_calls_def)
  next
    case True
    with https show ?thesis
      by (cases "requests_get w (url_of ''http'' (target t))")
        (simp_all add: get_http_headers_def url_of_def headers_dict_def set_result_def
          log_call_def Let_def headers_update_def https_update_def http_update_def
          http_requested_def http_calls_def)
  qed
qed

text \<open>
  When no print raises, the collector does what the specification says: the first
  request goes to the https URL, with a timeout of 5; when it returns, its headers are
  stored and no request is made over http; when it raises, one request goes to the http
  URL; when both raise, nothing is stored.
\<close>

lemma get_http_headers_https:
  "requests_get w (url_of ''https'' (target t)) = Inr items \<Longrightarrow>
   \<not> print_raises w ''https_headers'' (headers_dict items) \<Longrightarrow>
   get_http_headers w t =
     t\<lparr>results := AList.update (KStr ''https_headers'') (headers_dict items) (results t),
       calls := calls t @ [HttpGet (url_of ''https'' (target t)) 5]\<rparr>"
  by (simp add: get_http_headers_eq headers_update_def https_update_def http_update_def
      http_requested_def http_calls_def)

lemma get_http_headers_http:
  "isl (requests_get w (url_of ''https'' (target t))) \<Longrightarrow>
   requests_get w (url_of ''http'' (target t)) = Inr items \<Longrightarrow>
   get_http_headers w t =
     t\<lparr>results := AList.update (KStr ''http_headers'') (headers_dict items) (results t),
       calls := calls t @ [HttpGet (url_of ''https'' (target t)) 5,
                           HttpGet (url_of ''http'' (target t)) 5]\<rparr>"
  by (auto simp: get_http_headers_eq headers_update_def https_update_def http_update_def
      http_requested_def http_calls_def isl_def)

lemma get_http_headers_none:
  "isl (requests_get w (url_of ''https'' (target t))) \<Longrightarrow>
   isl (requests_get w (url_of ''http'' (target t))) \<Longrightarrow>
   get_http_headers w t =
     t\<lparr>calls := calls t @ [HttpGet (url_of ''https'' (target t)) 5,
                           HttpGet (url_of ''http'' (target t)) 5]\<rparr>"
  by (auto simp: get_http_headers_eq headers_update_def https_update_def http_update_def
      http_requested_def http_calls_def isl_def)

text \<open>
  C7. The claim does not hold of the code when a print of the https headers raises. In
  \<open>world_print_raises\<close> the https request returns and its headers are stored; the print of
  the header line raises inside the \<open>try\<close>, \<open>except Exception: pass\<close> swallows it, the
  \<open>break\<close> is skipped, and the collector requests the http URL as well and stores a second
  header field.
\<close>

theorem get_http_headers_requests_http_after_https:
  "requests_get world_print_raises (url_of ''https'' ''example.com'') =
     Inr [(''Server'', [CHR 0xA9])] \<and>
   get_http_headers world_print_raises (set_target ''example.com'') =
     \<lparr>target = ''example.com'',
      results = [(KStr ''https_headers'', PDict [(KStr ''Server'', PStr [CHR 0xA9])]),
                 (KStr ''http_headers'', PDict [(KStr ''Server'', PStr [CHR 0xA9])])],
      calls = [HttpGet ''https://example.com'' 5, HttpGet ''http://example.com'' 5],
      files = []\<rparr>"
  by code_simp


section \<open>The thread pool\<close>

lemma pool_inv_init: "pool_inv f xs (pool_init xs)"
  unfolding pool_inv_def pool_init_def by (auto intro: exI [of _ 0])

lemma drop_zip_upt_Cons:
  assumes "k < length xs"
  shows "drop k (zip [0..<length xs] xs) = (k, xs ! k) # drop (Suc k) (zip [0..<length xs] xs)"
proof -
  have "k < length (zip [0..<length xs] xs)" using assms by simp
  then have "drop k (zip [0..<length xs] xs) =
      (zip [0..<length xs] xs) ! k # drop (Suc k) (zip [0..<length xs] xs)"
    by (rule Cons_nth_drop_Suc [symmetric])
  with assms show ?thesis by simp
qed

lemma pool_step_inv:
  assumes "pool_step mw f e s = Some s'" and "pool_inv f xs s"
  shows "pool_inv f xs s'"
proof (cases e)
  case Start
  from assms(2) obtain k where k: "k \<le> length xs"
    "pending s = drop k (zip [0..<length xs] xs)" "started s = take k xs"
    "distinct (map fst (running s) @ map fst (futures s))"
    "set (map fst (running s)) \<union> set (map fst (futures s)) = {0..<k}"
    and run: "\<forall>(i, x) \<in> set (running s). i < length xs \<and> x = xs ! i"
    and fut: "\<forall>(i, r) \<in> set (futures s). i < length xs \<and> r = f (xs ! i)"
    unfolding pool_inv_def by blast
  from assms(1) Start have ne: "pending s \<noteq> []" by (auto split: list.splits)
  with k have klt: "k < length xs" by auto
  from k(2) have pend: "pending s = (k, xs ! k) # drop (Suc k) (zip [0..<length xs] xs)"
    using drop_zip_upt_Cons [OF klt] by simp
  from assms(1) Start pend have s': "s' = s\<lparr>pending := drop (Suc k) (zip [0..<length xs] xs),
      running := running s @ [(k, xs ! k)], started := started s @ [xs ! k]\<rparr>"
    by (auto split: if_splits)
  have fresh: "k \<notin> set (map fst (running s)) \<union> set (map fst (futures s))"
    using k(5) by simp
  have "Suc k \<le> length xs" using klt by simp
  moreover have "pending s' = drop (Suc k) (zip [0..<length xs] xs)" by (simp add: s')
  moreover have "started s' = take (Suc k) xs"
    using klt k(3) by (simp add: s' take_Suc_conv_app_nth)
  moreover have "distinct (map fst (running s') @ map fst (futures s'))"
    using k(4) fresh by (auto simp: s')
  moreover have "set (map fst (running s')) \<union> set (map fst (futures s')) = {0..<Suc k}"
    using k(5) by (auto simp: s' atLeast0_lessThan_Suc)
  moreover have "\<forall>(i, x) \<in> set (running s'). i < length xs \<and> x = xs ! i"
    using run klt by (auto simp: s')
  moreover have "\<forall>(i, r) \<in> set (futures s'). i < length xs \<and> r = f (xs ! i)"
    using fut by (simp add: s')
  ultimately show ?thesis unfolding pool_inv_def by blast
next
  case (Finish i)
  from assms(2) obtain k where k: "k \<le> length xs"
    "pending s = drop k (zip [0..<length xs] xs)" "started s = take k xs"
    "distinct (map fst (running s) @ map fst (futures s))"
    "set (map fst (running s)) \<union> set (map fst (futures s)) = {0..<k}"
    and run: "\<forall>(i, x) \<in> set (running s). i < length xs \<and> x = xs ! i"
    and fut: "\<forall>(i, r) \<in> set (futures s). i < length xs \<and> r = f (xs ! i)"
    unfolding pool_inv_def by blast
  from assms(1) Finish obtain x where x: "map_of (running s) i = Some x"
    and s': "s' = s\<lparr>running := filter (\<lambda>jx. fst jx \<noteq> i) (running s),
                     futures := futures s @ [(i, f x)]\<rparr>"
    by (auto split: option.splits)
  from x have mem: "(i, x) \<in> set (running s)" by (rule map_of_SomeD)
  with run have ix: "i < length xs" "x = xs ! i" by auto
  have fst_filter: "map fst (filter (\<lambda>jx. fst jx \<noteq> i) (running s)) = filter (\<lambda>j. j \<noteq> i) (map fst (running s))"
    by (induction "running s") (auto simp: filter_map o_def)
  have "pending s' = drop k (zip [0..<length xs] xs)" using k(2) by (simp add: s')
  moreover have "started s' = take k xs" using k(3) by (simp add: s')
  moreover have "distinct (map fst (running s') @ map fst (futures s'))"
  proof -
    from mem have "i \<in> fst ` set (running s)" by force
    with k(4) have "i \<notin> fst ` set (futures s)" by auto
    with k(4) show ?thesis by (auto simp: s' fst_filter)
  qed
  moreover have "set (map fst (running s')) \<union> set (map fst (futures s')) = {0..<k}"
  proof -
    from mem have "i \<in> set (map fst (running s))" by force
    then have "set (map fst (running s')) \<union> set (map fst (futures s')) =
        set (map fst (running s)) \<union> set (map fst (futures s))"
      by (auto simp: s' fst_filter)
    with k(5) show ?thesis by simp
  qed
  moreover have "\<forall>(i, x) \<in> set (running s'). i < length xs \<and> x = xs ! i"
    using run by (auto simp: s')
  moreover have "\<forall>(i, r) \<in> set (futures s'). i < length xs \<and> r = f (xs ! i)"
    using fut ix by (auto simp: s')
  ultimately show ?thesis using k(1) unfolding pool_inv_def by blast
qed

lemma pool_run_inv:
  "pool_run mw f evs s = Some s' \<Longrightarrow> pool_inv f xs s \<Longrightarrow> pool_inv f xs s'"
proof (induction evs arbitrary: s)
  case Nil
  then show ?case by simp
next
  case (Cons e es)
  then obtain s1 where "pool_step mw f e s = Some s1" "pool_run mw f es s1 = Some s'"
    by (auto split: option.splits)
  with Cons show ?case using pool_step_inv by blast
qed


lemma those_map_Some: "those (map Some ys) = Some ys"
  by (induction ys) simp_all

lemma pool_final_futures:
  assumes inv: "pool_inv f xs s" and fin: "pending s = []" "running s = []"
  shows "those (map (map_of (futures s)) [0..<length xs]) = Some (map f xs)"
    and "started s = xs"
proof -
  from inv obtain k where k: "k \<le> length xs"
    "pending s = drop k (zip [0..<length xs] xs)" "started s = take k xs"
    "distinct (map fst (running s) @ map fst (futures s))"
    "set (map fst (running s)) \<union> set (map fst (futures s)) = {0..<k}"
    and fut: "\<forall>(i, r) \<in> set (futures s). i < length xs \<and> r = f (xs ! i)"
    unfolding pool_inv_def by blast
  from k(1,2) fin(1) have keq: "k = length xs" by simp
  with k(3) show "started s = xs" by simp
  have look: "map_of (futures s) i = Some (f (xs ! i))" if "i < length xs" for i
  proof -
    from that k(5) keq fin(2) have "i \<in> fst ` set (futures s)" by simp
    then obtain r where r: "(i, r) \<in> set (futures s)" by force
    with fut have "r = f (xs ! i)" by auto
    moreover from k(4) fin(2) have "distinct (map fst (futures s))" by simp
    then have "map_of (futures s) i = Some r" using r by simp
    ultimately show ?thesis by simp
  qed
  have "map (map_of (futures s)) [0..<length xs] = map Some (map f xs)"
    by (rule nth_equalityI) (simp_all add: look)
  then show "those (map (map_of (futures s)) [0..<length xs]) = Some (map f xs)"
    by (simp only: those_map_Some)
qed

lemma executor_map_result:
  assumes "executor_map mw f xs evs = Some (rs, st)"
  shows "rs = map f xs \<and> st = xs"
proof -
  from assms obtain s where run: "pool_run mw f evs (pool_init xs) = Some s"
    and fin: "pending s = []" "running s = []"
    and res: "map_option (\<lambda>rs. (rs, started s)) (those (map (map_of (futures s)) [0..<length xs])) = Some (rs, st)"
    unfolding executor_map_def by (auto split: option.splits if_splits)
  from pool_run_inv [OF run pool_inv_init] have inv: "pool_inv f xs s" .
  from pool_final_futures [OF inv fin] res show ?thesis by auto
qed

lemma pool_step_bound:
  "pool_step mw f e s = Some s' \<Longrightarrow> length (running s) \<le> mw \<Longrightarrow> length (running s') \<le> mw"
proof (cases e)
  case Start
  assume "pool_step mw f e s = Some s'" "length (running s) \<le> mw"
  with Start show ?thesis by (auto split: list.splits if_splits)
next
  case (Finish i)
  assume a: "pool_step mw f e s = Some s'" "length (running s) \<le> mw"
  with Finish have "running s' = filter (\<lambda>jx. fst jx \<noteq> i) (running s)"
    by (auto split: option.splits)
  then have "length (running s') \<le> length (running s)"
    by simp
  with a(2) show ?thesis by linarith
qed

lemma pool_run_bound:
  "pool_run mw f evs s = Some s' \<Longrightarrow> length (running s) \<le> mw \<Longrightarrow> length (running s') \<le> mw"
proof (induction evs arbitrary: s)
  case Nil
  then show ?case by simp
next
  case (Cons e es)
  then obtain s1 where "pool_step mw f e s = Some s1" "pool_run mw f es s1 = Some s'"
    by (auto split: option.splits)
  with Cons show ?case using pool_step_bound by blast
qed

lemma in_order_from:
  assumes "0 < mw"
  shows "k \<le> length xs \<Longrightarrow>
    \<exists>s'. pool_run mw f (concat (map (\<lambda>i. [Start, Finish i]) [k..<length xs]))
       \<lparr>pending = drop k (zip [0..<length xs] xs), running = [], futures = fs, started = st\<rparr> = Some s'
       \<and> pending s' = [] \<and> running s' = []"
proof (induction "length xs - k" arbitrary: k fs st)
  case 0
  then show ?case by simp
next
  case (Suc d)
  then have klt: "k < length xs" by simp
  have upt: "[k..<length xs] = k # [Suc k..<length xs]" using klt by (simp add: upt_conv_Cons)
  from Suc(2) have d: "d = length xs - Suc k" by simp
  from Suc(1) [OF d, of "fs @ [(k, f (xs ! k))]" "st @ [xs ! k]"] klt
  obtain s' where "pool_run mw f (concat (map (\<lambda>i. [Start, Finish i]) [Suc k..<length xs]))
       \<lparr>pending = drop (Suc k) (zip [0..<length xs] xs), running = [],
        futures = fs @ [(k, f (xs ! k))], started = st @ [xs ! k]\<rparr> = Some s'"
    "pending s' = []" "running s' = []" by auto
  then show ?case
    using assms by (auto simp: upt drop_zip_upt_Cons [OF klt])
qed

lemma in_order_complete:
  assumes "0 < mw"
  shows "executor_map mw f xs (in_order (length xs)) = Some (map f xs, xs)"
proof -
  from in_order_from [OF assms, of 0 xs f "[]" "[]"]
  obtain s where run: "pool_run mw f (in_order (length xs)) (pool_init xs) = Some s"
    and fin: "pending s = []" "running s = []"
    unfolding in_order_def pool_init_def by auto
  from pool_run_inv [OF run pool_inv_init] have inv: "pool_inv f xs s" .
  from pool_final_futures [OF inv fin] run fin show ?thesis
    unfolding executor_map_def by simp
qed


lemma executor_map_schedule_free:
  assumes "executor_map mw f xs evs = Some r"
  shows "r = (map f xs, xs)"
  using assms executor_map_result [of mw f xs evs "fst r" "snd r"] by (cases r) simp

lemma running_pool_init: "running (pool_init xs) = []"
  by (simp add: pool_init_def)

section \<open>The port prober\<close>

lemma distinct_common_ports: "distinct common_ports"
  by (simp add: common_ports_def)

lemma sorted_common_ports: "sorted_wrt (<) common_ports"
  by (simp add: common_ports_def)

lemma length_common_ports: "length common_ports = 20"
  by (simp add: common_ports_def)

lemma pool_inv_running_distinct:
  assumes "pool_inv f xs s" and "distinct xs"
  shows "distinct (map snd (running s)) \<and> set (map snd (running s)) \<subseteq> set xs"
proof -
  from assms(1) have d: "distinct (map fst (running s))"
    and run: "\<forall>(i, x) \<in> set (running s). i < length xs \<and> x = xs ! i"
    unfolding pool_inv_def by auto
  from run have eq: "map snd (running s) = map (\<lambda>i. xs ! i) (map fst (running s))"
    by auto
  from run have lt: "\<forall>i\<in>set (map fst (running s)). i < length xs" by auto
  have "inj_on (\<lambda>i. xs ! i) (set (map fst (running s)))"
    using lt assms(2) by (auto simp: inj_on_def nth_eq_iff_index_eq)
  with d have "distinct (map (\<lambda>i. xs ! i) (map fst (running s)))"
    by (simp add: distinct_map del: map_map)
  moreover from lt have "set (map (\<lambda>i. xs ! i) (map fst (running s))) \<subseteq> set xs"
    by auto
  ultimately show ?thesis unfolding eq by blast
qed

text \<open>
  C2. In every state the pool of the port scan can reach, whatever the schedule and
  however many items were submitted, at most ten items are being run by workers. For the
  port scan itself, which runs this pool with \<open>check_port\<close> on \<open>common_ports\<close>: at every
  point of every schedule at most ten connection attempts are in flight, and they are
  attempts on different ports of the list.
\<close>

theorem pool_at_most_ten_in_flight:
  "(pool_run max_workers f evs (pool_init xs) = Some s \<longrightarrow> length (running s) \<le> 10) \<and>
   (in_flight w ip evs = Some ps \<longrightarrow>
      length ps \<le> 10 \<and> distinct ps \<and> set ps \<subseteq> set common_ports)"
proof (intro conjI impI)
  assume run: "pool_run max_workers f evs (pool_init xs) = Some s"
  have "length (running (pool_init xs :: ('a, 'b) pool)) \<le> max_workers"
    by (simp add: running_pool_init)
  with run have "length (running s) \<le> max_workers" by (rule pool_run_bound)
  then show "length (running s) \<le> 10" by (simp add: max_workers_def)
next
  assume "in_flight w ip evs = Some ps"
  then obtain s where
    run: "pool_run max_workers (check_port w ip) evs (pool_init common_ports) = Some s"
    and ps: "ps = map snd (running s)"
    by (auto simp: in_flight_def)
  have "length (running (pool_init common_ports :: (int, exn + int \<times> bool) pool)) \<le> max_workers"
    by (simp add: running_pool_init)
  with run have "length (running s) \<le> max_workers" by (rule pool_run_bound)
  then show "length ps \<le> 10" by (simp add: max_workers_def ps)
  from pool_run_inv [OF run pool_inv_init]
  have "pool_inv (check_port w ip) common_ports s" .
  from pool_inv_running_distinct [OF this distinct_common_ports] ps
  show "distinct ps" "set ps \<subseteq> set common_ports" by simp_all
qed

lemma ten_starts_in_flight:
  "in_flight world_up ''93.184.216.34'' (replicate 10 Start) =
     Some [21, 22, 23, 25, 53, 80, 110, 115, 135, 139]"
  by code_simp

theorem pool_at_most_ten_in_flight_witness:
  "in_flight world_up ''93.184.216.34'' (replicate 10 Start) =
     Some [21, 22, 23, 25, 53, 80, 110, 115, 135, 139] \<and>
   length [21, 22, 23, 25, 53, 80, 110, 115, 135, 139 :: int] \<le> 10 \<and>
   in_flight world_up ''93.184.216.34'' (replicate 11 Start) = None"
proof -
  have "in_flight world_up ''93.184.216.34'' (replicate 11 Start) = None" by code_simp
  with pool_at_most_ten_in_flight [where w = world_up and ip = "''93.184.216.34''"
      and evs = "replicate 10 Start" and ps = "[21, 22, 23, 25, 53, 80, 110, 115, 135, 139]"]
    ten_starts_in_flight
  show ?thesis by simp
qed

lemma collect_check_port:
  "\<forall>p\<in>set ps. \<not> isl (connect_ex w ip p) \<Longrightarrow>
   collect (map (check_port w ip) ps) = Inr (map (\<lambda>p. (p, connect_ex w ip p = Inr 0)) ps)"
proof (induction ps)
  case Nil
  then show ?case by simp
next
  case (Cons p ps)
  then obtain v where v: "connect_ex w ip p = Inr v" by (cases "connect_ex w ip p") auto
  with Cons show ?case by (simp add: check_port_def)
qed

lemma collect_check_port_Inr:
  "collect (map (check_port w ip) ps) = Inr prs \<Longrightarrow>
   prs = map (\<lambda>p. (p, connect_ex w ip p = Inr 0)) ps \<and> (\<forall>p\<in>set ps. \<not> isl (connect_ex w ip p))"
proof (induction ps arbitrary: prs)
  case Nil
  then show ?case by simp
next
  case (Cons p ps)
  from Cons.prems obtain v where v: "connect_ex w ip p = Inr v"
    by (cases "connect_ex w ip p") (auto simp: check_port_def)
  then have cp: "check_port w ip p = Inr (p, connect_ex w ip p = Inr 0)"
    by (simp add: check_port_def)
  from Cons.prems cp obtain rest where rest: "collect (map (check_port w ip) ps) = Inr rest"
    and prs: "prs = (p, connect_ex w ip p = Inr 0) # rest"
    by (cases "collect (map (check_port w ip) ps)") auto
  from Cons.IH [OF rest] prs v show ?case by simp
qed

lemma probe_ports_schedule_free:
  assumes "probe_ports w evs ip = Some r"
  shows "r = (case collect (map (check_port w ip) common_ports) of
                Inl e \<Rightarrow> Inl e
              | Inr port_results \<Rightarrow> Inr (port_results, common_ports))"
proof -
  from assms obtain outcomes begun where
    em: "executor_map max_workers (check_port w ip) common_ports evs = Some (outcomes, begun)"
    by (auto simp: probe_ports_def split: option.splits)
  from executor_map_schedule_free [OF em]
  have "outcomes = map (check_port w ip) common_ports" "begun = common_ports" by simp_all
  with assms em show ?thesis by (auto simp: probe_ports_def split: sum.splits)
qed

lemma probe_ports_in_order:
  "probe_ports w (in_order 20) ip =
     Some (case collect (map (check_port w ip) common_ports) of
             Inl e \<Rightarrow> Inl e
           | Inr port_results \<Rightarrow> Inr (port_results, common_ports))"
proof -
  have "executor_map max_workers (check_port w ip) common_ports (in_order (length common_ports))
      = Some (map (check_port w ip) common_ports, common_ports)"
    by (rule in_order_complete) (simp add: max_workers_def)
  then show ?thesis by (simp add: probe_ports_def length_common_ports split: sum.splits)
qed

lemma filter_fst_map_distinct:
  "distinct xs \<Longrightarrow> p \<in> set xs \<Longrightarrow> filter (\<lambda>pr. fst pr = p) (map (\<lambda>q. (q, g q)) xs) = [(p, g p)]"
proof (induction xs)
  case Nil
  then show ?case by simp
next
  case (Cons x xs)
  show ?case
  proof (cases "x = p")
    case True
    with Cons.prems have "p \<notin> set xs" by simp
    then have "filter (\<lambda>pr. fst pr = p) (map (\<lambda>q. (q, g q)) xs) = []"
      by (induction xs) auto
    with True show ?thesis by simp
  next
    case False
    with Cons show ?thesis by simp
  qed
qed

lemma count_list_distinct: "distinct xs \<Longrightarrow> p \<in> set xs \<Longrightarrow> count_list xs p = 1"
  by (induction xs) (auto simp: count_list_0_iff)

text \<open>
  C4 (amended). When every attempt returns the error indicator of \<open>connect_ex\<close> (zero, or
  non-zero for a timeout, a refusal or another error of the connection), the pool has a
  complete run, and every complete run gives the same: the attempts made are those of the
  port list, one for each port, and the results hold exactly one entry for each port, which
  says open exactly when the indicator was zero.
\<close>

theorem probe_ports_once_per_port:
  assumes "\<forall>p\<in>set common_ports. \<not> isl (connect_ex w ip p)"
  shows "probe_ports w (in_order 20) ip =
      Some (Inr (map (\<lambda>p. (p, connect_ex w ip p = Inr 0)) common_ports, common_ports)) \<and>
    (\<forall>evs r. probe_ports w evs ip = Some r \<longrightarrow>
       r = Inr (map (\<lambda>p. (p, connect_ex w ip p = Inr 0)) common_ports, common_ports)) \<and>
    (\<forall>p\<in>set common_ports.
       count_list common_ports p = 1 \<and>
       filter (\<lambda>pr. fst pr = p) (map (\<lambda>p. (p, connect_ex w ip p = Inr 0)) common_ports) =
         [(p, connect_ex w ip p = Inr 0)])"
proof (intro conjI ballI allI impI)
  show "probe_ports w (in_order 20) ip =
      Some (Inr (map (\<lambda>p. (p, connect_ex w ip p = Inr 0)) common_ports, common_ports))"
    by (simp add: probe_ports_in_order collect_check_port [OF assms])
next
  fix evs r assume "probe_ports w evs ip = Some r"
  from probe_ports_schedule_free [OF this] collect_check_port [OF assms]
  show "r = Inr (map (\<lambda>p. (p, connect_ex w ip p = Inr 0)) common_ports, common_ports)"
    by simp
next
  fix p assume "p \<in> set common_ports"
  then show "count_list common_ports p = 1"
    using distinct_common_ports by (simp add: count_list_distinct)
next
  fix p assume "p \<in> set common_ports"
  then show "filter (\<lambda>pr. fst pr = p) (map (\<lambda>p. (p, connect_ex w ip p = Inr 0)) common_ports) =
         [(p, connect_ex w ip p = Inr 0)]"
    using distinct_common_ports by (simp add: filter_fst_map_distinct)
qed

lemma world_up_returns: "\<forall>p\<in>set common_ports. \<not> isl (connect_ex world_up ''93.184.216.34'' p)"
  by (simp add: world_up_def)

lemma probe_ports_batches_reversed:
  "probe_ports world_up batches_reversed ''93.184.216.34'' \<noteq> None"
  by code_simp

theorem probe_ports_once_per_port_witness:
  "probe_ports world_up batches_reversed ''93.184.216.34'' =
     Some (Inr (map (\<lambda>p. (p, p = 80 \<or> p = 443)) common_ports, common_ports)) \<and>
   probe_ports world_up (in_order 20) ''93.184.216.34'' =
     Some (Inr (map (\<lambda>p. (p, p = 80 \<or> p = 443)) common_ports, common_ports)) \<and>
   count_list common_ports 443 = 1"
proof -
  from probe_ports_batches_reversed obtain r where
    r: "probe_ports world_up batches_reversed ''93.184.216.34'' = Some r" by blast
  from probe_ports_once_per_port [OF world_up_returns] r show ?thesis
    by (simp add: world_up_def common_ports_def)
qed

text \<open>
  The claim as the specification states it, for every attempt that errors, does not hold:
  \<open>check_port\<close> has no handler, so an attempt whose \<open>connect_ex\<close> raises (here for the
  address \<open>999.999.999.999\<close>, which the classifier accepts and which cannot be looked up)
  gives no port result, and the run ends with the exception.
\<close>

theorem probe_ports_connect_exception_propagates:
  "is_ip_address ''999.999.999.999'' \<and>
   connect_ex world_no_host ''999.999.999.999'' 21 = Inl Gaierror \<and>
   probe_ports world_no_host (in_order 20) ''999.999.999.999'' = Some (Inl Gaierror) \<and>
   main world_no_host (in_order 20) ''999.999.999.999'' = Some (Inl Gaierror)"
  by code_simp


section \<open>The port scan\<close>

lemma scan_common_ports_schedule_free:
  assumes "ip \<noteq> []" and "scan_common_ports w evs (Some ip) t = Some r"
  shows "r = sequential_scan w ip t"
proof -
  from assms obtain pr where pr: "probe_ports w evs ip = Some pr"
    by (auto simp: scan_common_ports_def split: option.splits)
  from probe_ports_schedule_free [OF pr] pr assms show ?thesis
    by (auto simp: scan_common_ports_def sequential_scan_def split: sum.splits prod.splits)
qed

lemma scan_common_ports_in_order:
  "ip \<noteq> [] \<Longrightarrow> scan_common_ports w (in_order 20) (Some ip) t = Some (sequential_scan w ip t)"
  by (simp add: scan_common_ports_def sequential_scan_def probe_ports_in_order
      split: sum.splits prod.splits)

lemma port_loop_Inr:
  "port_loop w prs acc t = Inr (acc', t') \<Longrightarrow> distinct (map fst prs) \<Longrightarrow>
   \<forall>p\<in>fst ` set prs. KInt p \<notin> fst ` set acc \<Longrightarrow>
   acc' = acc @ map (\<lambda>p. (KInt p, PStr (service_name w p))) (map fst (filter snd prs)) \<and>
   t' = t\<lparr>calls := calls t @ map Getservbyport (map fst (filter snd prs))\<rparr>"
proof (induction prs arbitrary: acc t)
  case Nil
  then show ?case by simp
next
  case (Cons pr prs)
  obtain p b where pr: "pr = (p, b)" by (cases pr)
  show ?case
  proof (cases b)
    case False
    with Cons.prems pr have "port_loop w prs acc t = Inr (acc', t')" by simp
    moreover from Cons.prems have "distinct (map fst prs)"
      "\<forall>q\<in>fst ` set prs. KInt q \<notin> fst ` set acc" by auto
    ultimately show ?thesis using Cons.IH False pr by simp
  next
    case True
    let ?t1 = "log_call (Getservbyport p) t"
    let ?acc = "AList.update (KInt p) (PStr (service_name w p)) acc"
    from Cons.prems(1) pr True have run: "port_loop w prs ?acc ?t1 = Inr (acc', t')"
      by (auto simp: service_name_def Let_def split: sum.splits if_splits)
    from Cons.prems(3) pr have "KInt p \<notin> fst ` set acc" by simp
    then have acc: "?acc = acc @ [(KInt p, PStr (service_name w p))]" by (rule update_fresh)
    from Cons.prems pr have "distinct (map fst prs)"
      "\<forall>q\<in>fst ` set prs. KInt q \<notin> fst ` set ?acc" by (auto simp: acc)
    from Cons.IH [OF run this] pr True show ?thesis
      by (simp add: acc log_call_def)
  qed
qed

lemma port_loop_cong:
  "\<forall>p\<in>fst ` set prs. getservbyport w p = getservbyport w' p \<Longrightarrow>
   port_loop w prs acc t = port_loop w' prs acc t"
proof (induction prs arbitrary: acc t)
  case Nil
  then show ?case by simp
next
  case (Cons pr prs)
  obtain p b where pr: "pr = (p, b)" by (cases pr)
  from Cons.prems pr have same: "getservbyport w p = getservbyport w' p"
    and rest: "\<forall>q\<in>fst ` set prs. getservbyport w q = getservbyport w' q" by auto
  from Cons.IH [OF rest] same pr show ?case
    by (simp add: Let_def split: sum.splits)
qed

lemma map_fst_filter_snd: "map fst (filter snd (map (\<lambda>p. (p, g p)) ps)) = filter g ps"
  by (induction ps) auto

lemma sequential_scan_Inr:
  assumes "sequential_scan w ip t = Inr t'"
  shows "t' = t\<lparr>results := AList.update (KStr ''port_scan'')
                   (PDict (map (\<lambda>p. (KInt p, PStr (service_name w p))) (open_ports_of w ip)))
                   (results t),
                calls := calls t @ map (Connect ip) common_ports @
                         map Getservbyport (open_ports_of w ip)\<rparr>"
proof -
  from assms obtain prs where prs: "collect (map (check_port w ip) common_ports) = Inr prs"
    by (auto simp: sequential_scan_def split: sum.splits)
  from collect_check_port_Inr [OF prs]
  have prs_eq: "prs = map (\<lambda>p. (p, connect_ex w ip p = Inr 0)) common_ports" by simp
  let ?t0 = "t\<lparr>calls := calls t @ map (Connect ip) common_ports\<rparr>"
  from assms prs obtain acc' t1 where loop: "port_loop w prs [] ?t0 = Inr (acc', t1)"
    and t': "t' = set_result ''port_scan'' (PDict acc') t1"
    by (auto simp: sequential_scan_def split: sum.splits)
  have opened: "map fst (filter snd prs) = open_ports_of w ip"
    unfolding prs_eq open_ports_of_def by (rule map_fst_filter_snd)
  have "distinct (map fst prs)"
    using distinct_common_ports by (simp add: prs_eq o_def)
  from port_loop_Inr [OF loop this] opened t' show ?thesis
    by (simp add: set_result_def)
qed

lemma sequential_scan_cong:
  assumes "\<forall>p\<in>set common_ports.
      check_port w ip p = check_port w' ip p \<and> getservbyport w p = getservbyport w' p"
  shows "sequential_scan w ip t = sequential_scan w' ip t"
proof -
  from assms have same: "map (check_port w ip) common_ports = map (check_port w' ip) common_ports"
    by simp
  show ?thesis
  proof (cases "collect (map (check_port w ip) common_ports)")
    case (Inl e)
    then show ?thesis unfolding sequential_scan_def same [symmetric] by simp
  next
    case (Inr prs)
    from collect_check_port_Inr [OF Inr] have "fst ` set prs = set common_ports" by force
    with assms have "\<forall>p\<in>fst ` set prs. getservbyport w p = getservbyport w' p" by simp
    then have "port_loop w prs acc u = port_loop w' prs acc u" for acc u
      by (rule port_loop_cong)
    with Inr show ?thesis unfolding sequential_scan_def same [symmetric] by simp
  qed
qed

lemma emitted_ports_set_result:
  "emitted_ports (t\<lparr>results := AList.update (KStr ''port_scan'') (PDict d) rs, calls := cs\<rparr>) = map fst d"
  by (simp add: emitted_ports_def update_conv')

lemma open_ports_of_cong:
  "\<forall>p\<in>set common_ports. (connect_ex w ip p = Inr 0) = (connect_ex w' ip p = Inr 0) \<Longrightarrow>
   open_ports_of w ip = open_ports_of w' ip"
  unfolding open_ports_of_def by (rule filter_cong) simp_all

lemma sorted_open_ports_of: "sorted_wrt (<) (open_ports_of w ip)"
  unfolding open_ports_of_def using sorted_common_ports by (rule sorted_wrt_filter)

text \<open>
  C1. For an address that is not empty, the scan has a complete run, and any two complete
  runs of the pool end in the same result: the schedule does not show in it. When the scan
  stores a port mapping, its keys are the open ports in the order of the port list, which
  ascends; and a scan in another world that finds the same ports open stores the same
  sequence of keys.
\<close>

theorem scan_common_ports_order_independent:
  assumes "ip \<noteq> []"
    and "scan_common_ports w evs (Some ip) t = Some r"
    and "scan_common_ports w evs' (Some ip) t = Some r'"
    and "scan_common_ports w' evs'' (Some ip) t = Some (Inr u)"
    and "\<forall>p\<in>set common_ports. (connect_ex w ip p = Inr 0) = (connect_ex w' ip p = Inr 0)"
  shows "scan_common_ports w (in_order 20) (Some ip) t = Some r \<and> r' = r \<and>
    (\<forall>t'. r = Inr t' \<longrightarrow>
       emitted_ports t' = map KInt (open_ports_of w ip) \<and> sorted_wrt (<) (open_ports_of w ip) \<and>
       emitted_ports u = emitted_ports t')"
proof (intro conjI allI impI)
  note r = scan_common_ports_schedule_free [OF assms(1,2)]
  from r show "scan_common_ports w (in_order 20) (Some ip) t = Some r"
    using scan_common_ports_in_order [OF assms(1)] by simp
  from r scan_common_ports_schedule_free [OF assms(1,3)] show "r' = r" by simp
  fix t' assume "r = Inr t'"
  with r have "sequential_scan w ip t = Inr t'" by simp
  from sequential_scan_Inr [OF this]
  show e: "emitted_ports t' = map KInt (open_ports_of w ip)"
    by (simp add: emitted_ports_set_result o_def)
  show "sorted_wrt (<) (open_ports_of w ip)" by (rule sorted_open_ports_of)
  from scan_common_ports_schedule_free [OF assms(1,4)]
  have "sequential_scan w' ip t = Inr u" by simp
  from sequential_scan_Inr [OF this]
  have "emitted_ports u = map KInt (open_ports_of w' ip)"
    by (simp add: emitted_ports_set_result o_def)
  with e open_ports_of_cong [OF assms(5)] show "emitted_ports u = emitted_ports t'" by simp
qed

lemma scan_world_up_in_order:
  "scan_common_ports world_up (in_order 20) (Some ''93.184.216.34'') (set_target ''example.com'')
     \<noteq> None"
  by code_simp

lemma scan_world_up_batches_reversed:
  "scan_common_ports world_up batches_reversed (Some ''93.184.216.34'') (set_target ''example.com'')
     \<noteq> None"
  by code_simp

lemma open_ports_of_world_up: "open_ports_of world_up ''93.184.216.34'' = [80, 443]"
  by code_simp

theorem scan_common_ports_order_independent_witness:
  "(\<exists>t'. scan_common_ports world_up (in_order 20) (Some ''93.184.216.34'') (set_target ''example.com'')
           = Some (Inr t') \<and>
         scan_common_ports world_up batches_reversed (Some ''93.184.216.34'') (set_target ''example.com'')
           = Some (Inr t') \<and>
         emitted_ports t' = [KInt 80, KInt 443]) \<and>
   sorted_wrt (<) [80, 443 :: int]"
proof -
  let ?ip = "''93.184.216.34''" and ?t = "set_target ''example.com''"
  from scan_world_up_in_order obtain r where
    r: "scan_common_ports world_up (in_order 20) (Some ?ip) ?t = Some r" by blast
  from scan_world_up_batches_reversed obtain r' where
    r': "scan_common_ports world_up batches_reversed (Some ?ip) ?t = Some r'" by blast
  have ne: "?ip \<noteq> []" by simp
  from r scan_common_ports_in_order [OF ne, of world_up ?t]
  have "r = sequential_scan world_up ?ip ?t" by simp
  moreover have "\<not> isl (sequential_scan world_up ?ip ?t)" by code_simp
  ultimately have "\<not> isl r" by simp
  then obtain t' where t': "r = Inr t'" by (cases r) auto
  have same: "\<forall>p\<in>set common_ports.
      (connect_ex world_up ?ip p = Inr 0) = (connect_ex world_up ?ip p = Inr 0)" by simp
  from scan_common_ports_order_independent [OF ne r r' r [unfolded t'] same] t' r r'
  show ?thesis by (auto simp: open_ports_of_world_up)
qed

section \<open>The run and its report\<close>

lemma get_ip_Inr:
  assumes "get_ip w t = Inr (ip, t1)"
  shows "ip = resolved_ip w (target t) \<and>
    t1 = t\<lparr>results := fold (\<lambda>(k, v). AList.update k v) (ip_result w (target t)) (results t),
           calls := calls t @ ip_calls (target t)\<rparr>"
proof (cases "is_ip_address (target t)")
  case True
  with assms show ?thesis
    by (auto simp: get_ip_def resolved_ip_def ip_result_def ip_calls_def)
next
  case False
  with assms show ?thesis
    by (cases "gethostbyname w (target t)")
      (auto simp: get_ip_def resolved_ip_def ip_result_def ip_calls_def set_result_def
        log_call_def Let_def split: if_splits)
qed

lemma get_whois_eq:
  "get_whois w t =
     t\<lparr>results := AList.update (KStr ''whois'') (whois_value w (target t)) (results t),
       calls := calls t @ [Whois (target t)]\<rparr>"
  by (cases "whois_lookup w (target t)")
    (simp_all add: get_whois_def whois_value_def set_result_def log_call_def Let_def)

lemma scan_common_ports_Inr:
  assumes "scan_common_ports w evs ip_opt t = Some (Inr t')"
  shows "t' = t\<lparr>results := AList.update (KStr ''port_scan'') (port_scan_value w ip_opt) (results t),
                calls := calls t @ port_scan_calls w ip_opt\<rparr>"
proof (cases "\<exists>ip. ip_opt = Some ip \<and> ip \<noteq> []")
  case True
  then obtain ip where ip: "ip_opt = Some ip" "ip \<noteq> []" by blast
  from scan_common_ports_schedule_free [OF ip(2)] assms ip
  have "sequential_scan w ip t = Inr t'" by simp
  from sequential_scan_Inr [OF this] ip show ?thesis
    by (simp add: port_scan_value_def port_scan_calls_def)
next
  case False
  with assms show ?thesis
    by (cases ip_opt)
      (auto simp: scan_common_ports_def port_scan_value_def port_scan_calls_def set_result_def)
qed

lemma recon_steps_Inr:
  assumes "recon_steps w evs (set_target tgt) = Some (Inr t')"
  shows "t' = \<lparr>target = tgt, results = report_results w tgt, calls = report_calls w tgt, files = []\<rparr>"
proof -
  from assms obtain ip t1 where g: "get_ip w (set_target tgt) = Inr (ip, t1)"
    by (cases "get_ip w (set_target tgt)") (auto simp: recon_steps_def)
  from get_ip_Inr [OF g] have ip: "ip = resolved_ip w tgt"
    and t1: "t1 = \<lparr>target = tgt, results = ip_result w tgt, calls = ip_calls tgt, files = []\<rparr>"
    by (auto simp: set_target_def ip_result_def)
  let ?u = "get_dns_records w (get_whois w t1)"
  from assms g obtain t2 where s: "scan_common_ports w evs ip ?u = Some (Inr t2)"
    and t': "t' = get_http_headers w t2"
    by (auto simp: recon_steps_def split: option.splits sum.splits)
  from scan_common_ports_Inr [OF s] t' ip t1 show ?thesis
    by (simp add: get_http_headers_eq get_dns_records_eq get_whois_eq report_results_def
        report_calls_def)
qed

lemma recon_steps_in_order:
  "recon_steps w (in_order 20) (set_target tgt) \<noteq> None"
proof (cases "get_ip w (set_target tgt)")
  case (Inl e)
  then show ?thesis by (simp add: recon_steps_def)
next
  case (Inr r)
  obtain ip t1 where r: "r = (ip, t1)" by (cases r)
  have "scan_common_ports w (in_order 20) ip u \<noteq> None" for u
  proof (cases "\<exists>a. ip = Some a \<and> a \<noteq> []")
    case True
    then show ?thesis using scan_common_ports_in_order by auto
  next
    case False
    then show ?thesis by (cases ip) (auto simp: scan_common_ports_def)
  qed
  with Inr r show ?thesis
    by (auto simp: recon_steps_def split: option.splits sum.splits)
qed

lemma map_of_headers_update:
  "k \<noteq> ''https_headers'' \<Longrightarrow> k \<noteq> ''http_headers'' \<Longrightarrow>
   map_of (headers_update w tgt rs) (KStr k) = map_of rs (KStr k)"
  by (simp add: headers_update_def https_update_def http_update_def update_conv'
      split: sum.splits)




lemma no_connect_dns_calls: "filter is_connect (dns_calls tgt) = []"
  by (simp add: dns_calls_def record_types_def)

lemma no_connect_http_calls: "filter is_connect (http_calls w tgt) = []"
  by (simp add: http_calls_def)

lemma no_connect_ip_calls: "filter is_connect (ip_calls tgt) = []"
  by (simp add: ip_calls_def)

text \<open>
  C3. Given no address, the port scan stores the marker and makes no call, under every
  schedule. So a run whose resolver call raised \<open>socket.gaierror\<close> goes through to its
  report, the report holds the marker under \<open>port_scan\<close>, and the run made no connection
  attempt.
\<close>

theorem scan_skipped_when_unresolved:
  "scan_common_ports w evs None t =
     Some (Inr (t\<lparr>results := AList.update (KStr ''port_scan'')
                     (PStr ''Skipped due to DNS resolution failure'') (results t)\<rparr>)) \<and>
   (\<not> is_ip_address tgt \<and> gethostbyname w tgt = Inl Gaierror \<longrightarrow>
      get_ip w (set_target tgt) \<noteq> Inl Gaierror \<and>
      (\<exists>t'. recon_steps w evs (set_target tgt) = Some (Inr t') \<and>
            map_of (results t') (KStr ''port_scan'') =
              Some (PStr ''Skipped due to DNS resolution failure'') \<and>
            filter is_connect (calls t') = []))"
proof (intro conjI impI)
  show "scan_common_ports w evs None t =
     Some (Inr (t\<lparr>results := AList.update (KStr ''port_scan'')
                     (PStr ''Skipped due to DNS resolution failure'') (results t)\<rparr>))"
    by (simp add: scan_common_ports_def set_result_def)
next
  assume a: "\<not> is_ip_address tgt \<and> gethostbyname w tgt = Inl Gaierror"
  then show "get_ip w (set_target tgt) \<noteq> Inl Gaierror"
    by (simp add: get_ip_def set_target_def)
next
  assume a: "\<not> is_ip_address tgt \<and> gethostbyname w tgt = Inl Gaierror"
  then obtain t1 where g: "get_ip w (set_target tgt) = Inr (None, t1)"
    by (simp add: get_ip_def set_target_def)
  then obtain t' where r: "recon_steps w evs (set_target tgt) = Some (Inr t')"
    by (simp add: recon_steps_def scan_common_ports_def)
  from a have ip: "resolved_ip w tgt = None" by (simp add: resolved_ip_def)
  from recon_steps_Inr [OF r]
  have "results t' = report_results w tgt" "calls t' = report_calls w tgt" by simp_all
  with ip have "map_of (results t') (KStr ''port_scan'') =
      Some (PStr ''Skipped due to DNS resolution failure'')"
    and "filter is_connect (calls t') = []"
    by (simp_all add: report_results_def report_calls_def map_of_headers_update update_conv'
        port_scan_value_def port_scan_calls_def no_connect_dns_calls no_connect_http_calls
        no_connect_ip_calls)
  with r show "\<exists>t'. recon_steps w evs (set_target tgt) = Some (Inr t') \<and>
            map_of (results t') (KStr ''port_scan'') =
              Some (PStr ''Skipped due to DNS resolution failure'') \<and>
            filter is_connect (calls t') = []" by blast
qed

theorem scan_skipped_when_unresolved_witness:
  "gethostbyname world_down ''example.test'' = Inl Gaierror \<and>
   (\<exists>t'. recon_steps world_down batches_reversed (set_target ''example.test'') = Some (Inr t') \<and>
         map_of (results t') (KStr ''port_scan'') = Some (PStr ''Skipped due to DNS resolution failure'') \<and>
         filter is_connect (calls t') = [])"
  using scan_skipped_when_unresolved [of world_down batches_reversed "set_target ''example.test''"
      "''example.test''"] not_ip_example_test
  by (simp add: world_down_def)




lemma recon_steps_world_down:
  "recon_steps world_down [] (set_target ''example.test'') = Some (Inr report_down)"
  by code_simp



section \<open>The artifact read back\<close>


lemma fold_update_fresh:
  "distinct (map fst xs) \<Longrightarrow> fst ` set xs \<inter> fst ` set acc = {} \<Longrightarrow>
   fold (\<lambda>(k, v) d. AList.update k v d) xs acc = acc @ xs"
proof (induction xs arbitrary: acc)
  case Nil
  then show ?case by simp
next
  case (Cons kv xs)
  obtain k v where kv: "kv = (k, v)" by (cases kv)
  from Cons.prems kv have "k \<notin> fst ` set acc" by auto
  then have upd: "AList.update k v acc = acc @ [(k, v)]" by (rule update_fresh)
  from Cons.prems kv have "distinct (map fst xs)"
    "fst ` set xs \<inter> fst ` set (acc @ [(k, v)]) = {}" by auto
  from Cons.IH [OF this] kv upd show ?case by simp
qed

lemma py_dict_distinct: "distinct (map fst xs) \<Longrightarrow> py_dict xs = xs"
  unfolding py_dict_def using fold_update_fresh [of xs "[]"] by simp

lemma distinct_fold_update:
  "distinct (map fst acc) \<Longrightarrow> distinct (map fst (fold (\<lambda>(k, v) d. AList.update k v d) xs acc))"
  by (induction xs arbitrary: acc) (auto simp: distinct_update)

lemma distinct_py_dict: "distinct (map fst (py_dict xs))"
  unfolding py_dict_def by (rule distinct_fold_update) simp

lemma json_load_dump: "wf_py v \<Longrightarrow> json_load (json_dump v) = str_keys v"
proof (induction v)
  case PNone
  then show ?case by simp
next
  case (PStr s)
  then show ?case by simp
next
  case (PList vs)
  then show ?case by (simp add: list_all_iff)
next
  case (PDict kvs)
  from PDict.prems have d: "distinct (map (key_str \<circ> fst) kvs)"
    and wf: "\<And>k v. (k, v) \<in> set kvs \<Longrightarrow> wf_py v"
    by (auto simp: list_all_iff)
  have ih: "json_load (json_dump v) = str_keys v" if "(k, v) \<in> set kvs" for k v
    using PDict.IH [of "(k, v)" v] that wf by auto
  have m: "map (map_prod KStr json_load) (map (map_prod key_str json_dump) kvs) =
      map (map_prod (\<lambda>k. KStr (key_str k)) str_keys) kvs"
    using ih by (auto simp: o_def)
  have "distinct (map (\<lambda>kv. KStr (key_str (fst kv))) kvs)"
    using d by (auto simp: distinct_map inj_on_def)
  then have "distinct (map fst (map (map_prod (\<lambda>k. KStr (key_str k)) str_keys) kvs))"
    by (simp add: o_def)
  then show ?case by (simp add: m py_dict_distinct del: map_map)
qed


lemma set_update_subset: "set (AList.update k v al) \<subseteq> insert (k, v) (set al)"
  by (induction al) auto

lemma set_fold_update_subset:
  "set (fold (\<lambda>(k, v) d. AList.update k v d) xs acc) \<subseteq> set xs \<union> set acc"
proof (induction xs arbitrary: acc)
  case Nil
  then show ?case by simp
next
  case (Cons kv xs)
  obtain k v where kv: "kv = (k, v)" by (cases kv)
  from Cons.IH [of "AList.update k v acc"] set_update_subset [of k v acc] kv
  show ?case by auto
qed

lemma set_py_dict_subset: "set (py_dict xs) \<subseteq> set xs"
  unfolding py_dict_def using set_fold_update_subset [of xs "[]"] by simp

lemma distinct_key_str:
  "list_all (\<lambda>kv. is_KStr (fst kv)) al \<Longrightarrow> distinct (map fst al) \<Longrightarrow>
   distinct (map (key_str \<circ> fst) al)"
proof (induction al)
  case Nil
  then show ?case by simp
next
  case (Cons kv al)
  obtain k v where kv: "kv = (k, v)" by (cases kv)
  from Cons.prems kv obtain s where k: "k = KStr s" by (cases k) auto
  have "s \<notin> set (map (key_str \<circ> fst) al)"
  proof
    assume "s \<in> set (map (key_str \<circ> fst) al)"
    then obtain k' v' where mem: "(k', v') \<in> set al" and ks: "key_str k' = s" by auto
    from Cons.prems(1) mem have "is_KStr k'" by (auto simp: list_all_iff)
    with ks have "k' = KStr s" by (cases k') auto
    with mem Cons.prems(2) kv k show False by force
  qed
  with Cons kv k show ?case by simp
qed

lemma wf_results_imp_wf_py: "wf_results al \<Longrightarrow> wf_py (PDict al)"
  using distinct_key_str [of al]
  by (auto simp: wf_results_def list_all_iff pred_prod_beta)

lemma wf_results_update:
  assumes "wf_results al" and "wf_py v"
  shows "wf_results (AList.update (KStr k) v al)"
proof -
  from assms set_update_subset [of "KStr k" v al]
  have "list_all (\<lambda>kv. is_KStr (fst kv) \<and> wf_py (snd kv)) (AList.update (KStr k) v al)"
    by (auto simp: wf_results_def list_all_iff)
  with assms show ?thesis by (simp add: wf_results_def distinct_update)
qed

lemma wf_py_of_wfield: "wf_py (py_of_wfield f)"
  by (cases f) (simp_all add: list_all_iff)

lemma wf_simplified_whois: "wf_py (simplified_whois info)"
  by (simp add: simplified_whois_def wf_py_of_wfield)

lemma wf_whois_value: "wf_py (whois_value w tgt)"
  by (simp add: whois_value_def wf_simplified_whois split: sum.splits)

lemma keys_dns_answers:
  "map fst (dns_answers w tgt rts) = map KStr (filter (\<lambda>rt. \<not> isl (dns_resolve w tgt rt)) rts)"
  by (induction rts) (auto simp: dns_answers_def split: sum.splits)

lemma wf_dns_answers: "distinct rts \<Longrightarrow> wf_results (dns_answers w tgt rts)"
proof -
  assume "distinct rts"
  then have "distinct (map fst (dns_answers w tgt rts))"
    by (simp add: keys_dns_answers distinct_map inj_on_def)
  moreover have "list_all (\<lambda>kv. is_KStr (fst kv) \<and> wf_py (snd kv)) (dns_answers w tgt rts)"
    by (induction rts) (auto simp: dns_answers_def list_all_iff split: sum.splits)
  ultimately show ?thesis by (simp add: wf_results_def)
qed

lemma wf_dns_value: "wf_py (dns_value w tgt)"
  using wf_dns_answers [OF distinct_record_types, of w tgt]
  by (simp add: dns_value_def wf_results_imp_wf_py del: wf_py.simps(4))

lemma port_texts:
  "map str_of_int common_ports =
     [''21'', ''22'', ''23'', ''25'', ''53'', ''80'', ''110'', ''115'', ''135'', ''139'', ''143'',
      ''443'', ''445'', ''1433'', ''3306'', ''3389'', ''5060'', ''5900'', ''8080'', ''8443'']"
  by (simp add: common_ports_def str_of_int_def digit_char_def)

lemma distinct_port_texts: "distinct (map str_of_int common_ports)"
  unfolding port_texts by simp

lemma wf_port_scan_value: "wf_py (port_scan_value w ip_opt)"
proof -
  have "distinct (map str_of_int (open_ports_of w ip))" for ip
    unfolding open_ports_of_def using distinct_port_texts by (rule distinct_map_filter)
  then show ?thesis
    by (auto simp: port_scan_value_def o_def list_all_iff split: option.splits)
qed

lemma wf_headers_dict: "wf_py (headers_dict items)"
proof -
  let ?xs = "map (\<lambda>(h, v). (KStr h, PStr v)) items"
  have "list_all (\<lambda>kv. is_KStr (fst kv) \<and> wf_py (snd kv)) (py_dict ?xs)"
    using set_py_dict_subset [of ?xs] by (auto simp: list_all_iff)
  then have "wf_results (py_dict ?xs)" by (simp add: wf_results_def distinct_py_dict)
  then show ?thesis unfolding headers_dict_def by (rule wf_results_imp_wf_py)
qed

lemma wf_headers_update: "wf_results rs \<Longrightarrow> wf_results (headers_update w tgt rs)"
  by (simp add: headers_update_def https_update_def http_update_def wf_results_update
      wf_headers_dict split: sum.splits)

lemma wf_report_results: "wf_results (report_results w tgt)"
proof -
  have "wf_results (ip_result w tgt)" by (simp add: ip_result_def wf_results_def)
  then show ?thesis
    unfolding report_results_def
    by (intro wf_headers_update wf_results_update wf_whois_value wf_dns_value wf_port_scan_value)
qed

lemma wf_self_output: "results t = report_results w tgt \<Longrightarrow> wf_py (self_output t)"
  using wf_results_imp_wf_py [OF wf_report_results, of w tgt]
  by (simp add: self_output_def del: wf_py.simps(4))
    (simp add: pred_prod_beta)


text \<open>Which values the reader gives back as they were.\<close>

lemma str_keys_py_of_wfield: "str_keys (py_of_wfield f) = py_of_wfield f"
  by (cases f) (simp_all add: map_idI)

lemma str_keys_simplified_whois: "str_keys (simplified_whois info) = simplified_whois info"
  by (simp add: simplified_whois_def str_keys_py_of_wfield)

lemma str_keys_whois_value: "str_keys (whois_value w tgt) = whois_value w tgt"
  by (simp add: whois_value_def str_keys_simplified_whois split: sum.splits)

lemma str_keys_dns_value: "str_keys (dns_value w tgt) = dns_value w tgt"
proof -
  have "map (map_prod (\<lambda>k. KStr (key_str k)) str_keys) (dns_answers w tgt rts) =
      dns_answers w tgt rts" for rts
    by (induction rts) (auto simp: dns_answers_def map_idI split: sum.splits)
  then show ?thesis by (simp add: dns_value_def)
qed

lemma str_keys_headers_dict: "str_keys (headers_dict items) = headers_dict items"
proof -
  let ?xs = "map (\<lambda>(h, v). (KStr h, PStr v)) items"
  have "map_prod (\<lambda>k. KStr (key_str k)) str_keys kv = kv" if "kv \<in> set (py_dict ?xs)" for kv
    using that set_py_dict_subset [of ?xs] by auto
  then have "map (map_prod (\<lambda>k. KStr (key_str k)) str_keys) (py_dict ?xs) = py_dict ?xs"
    by (rule map_idI)
  then show ?thesis by (simp add: headers_dict_def)
qed

lemma str_keys_port_scan_value:
  "str_keys (port_scan_value w ip_opt) = port_scan_value w ip_opt \<longleftrightarrow>
     (case port_scan_value w ip_opt of PDict d \<Rightarrow> d = [] | _ \<Rightarrow> True)"
proof -
  have "map (map_prod (\<lambda>k. KStr (key_str k)) str_keys) (map (\<lambda>p. (KInt p, PStr (g p))) ps) =
      map (\<lambda>p. (KInt p, PStr (g p))) ps \<longleftrightarrow> ps = []" for g :: "int \<Rightarrow> string" and ps
    by (cases ps) auto
  then show ?thesis
    by (simp add: port_scan_value_def split: option.splits)
qed

lemma others_fixed_update:
  "others_fixed al \<Longrightarrow> k = ''port_scan'' \<or> str_keys v = v \<Longrightarrow>
   others_fixed (AList.update (KStr k) v al)"
  using set_update_subset [of "KStr k" v al] by (auto simp: others_fixed_def)

lemma others_fixed_headers_update:
  "others_fixed rs \<Longrightarrow> others_fixed (headers_update w tgt rs)"
  by (simp add: headers_update_def https_update_def http_update_def others_fixed_update
      str_keys_headers_dict split: sum.splits)

lemma others_fixed_report_results: "others_fixed (report_results w tgt)"
proof -
  have "others_fixed (ip_result w tgt)" by (simp add: ip_result_def others_fixed_def)
  then show ?thesis
    unfolding report_results_def
    by (intro others_fixed_headers_update others_fixed_update)
      (simp_all add: str_keys_whois_value str_keys_dns_value)
qed

lemma map_of_report_results_port_scan:
  "map_of (report_results w tgt) (KStr ''port_scan'') = Some (port_scan_value w (resolved_ip w tgt))"
  by (simp add: report_results_def map_of_headers_update update_conv')

lemma str_keys_report_results:
  "str_keys (PDict (report_results w tgt)) = PDict (report_results w tgt) \<longleftrightarrow>
     str_keys (port_scan_value w (resolved_ip w tgt)) = port_scan_value w (resolved_ip w tgt)"
proof -
  let ?rr = "report_results w tgt" and ?psv = "port_scan_value w (resolved_ip w tgt)"
  let ?f = "map_prod (\<lambda>k. KStr (key_str k)) str_keys"
  from map_of_report_results_port_scan [of w tgt]
  have mem: "(KStr ''port_scan'', ?psv) \<in> set ?rr" by (rule map_of_SomeD)
  from wf_report_results [of w tgt] have dist: "distinct (map fst ?rr)"
    by (simp add: wf_results_def)
  have only: "v = ?psv" if "(KStr ''port_scan'', v) \<in> set ?rr" for v
    using that mem dist by (meson eq_key_imp_eq_value)
  have "map ?f ?rr = ?rr \<longleftrightarrow> (\<forall>kv\<in>set ?rr. ?f kv = kv)"
    using map_eq_conv [of ?f ?rr id] by simp
  also have "\<dots> \<longleftrightarrow> str_keys ?psv = ?psv"
  proof
    assume "\<forall>kv\<in>set ?rr. ?f kv = kv"
    with mem show "str_keys ?psv = ?psv" by force
  next
    assume fixed: "str_keys ?psv = ?psv"
    show "\<forall>kv\<in>set ?rr. ?f kv = kv"
    proof
      fix kv assume kv: "kv \<in> set ?rr"
      obtain k v where kv_eq: "kv = (k, v)" by (cases kv)
      from others_fixed_report_results [of w tgt] kv kv_eq
      have k: "is_KStr k" and other: "k \<noteq> KStr ''port_scan'' \<Longrightarrow> str_keys v = v"
        by (auto simp: others_fixed_def)
      from k obtain s where s: "k = KStr s" by (cases k) auto
      have "str_keys v = v"
      proof (cases "k = KStr ''port_scan''")
        case True
        with kv kv_eq only fixed show ?thesis by simp
      next
        case False
        then show ?thesis by (rule other)
      qed
      with s kv_eq show "?f kv = kv" by simp
    qed
  qed
  finally show ?thesis by simp
qed

lemma emitted_ports_report:
  "results t = report_results w tgt \<Longrightarrow>
   emitted_ports t = [] \<longleftrightarrow>
     (case port_scan_value w (resolved_ip w tgt) of PDict d \<Rightarrow> d = [] | _ \<Rightarrow> True)"
  by (simp add: emitted_ports_def map_of_report_results_port_scan split: pyval.splits)

lemma report_read_back:
  assumes "results t = report_results w tgt"
  shows "json_load (json_dump (self_output t)) = str_keys (self_output t)"
    and "json_load (json_dump (self_output t)) = self_output t \<longleftrightarrow> emitted_ports t = []"
proof -
  show rb: "json_load (json_dump (self_output t)) = str_keys (self_output t)"
    using wf_self_output [OF assms] by (rule json_load_dump)
  have a: "str_keys (self_output t) = self_output t \<longleftrightarrow>
      str_keys (PDict (report_results w tgt)) = PDict (report_results w tgt)"
    by (simp add: self_output_def assms)
  note b = str_keys_report_results [of w tgt]
  note c = str_keys_port_scan_value [of w "resolved_ip w tgt"]
  note d = emitted_ports_report [OF assms]
  from a b c d have "str_keys (self_output t) = self_output t \<longleftrightarrow> emitted_ports t = []"
    by blast
  with rb show "json_load (json_dump (self_output t)) = self_output t \<longleftrightarrow> emitted_ports t = []"
    by simp
qed

lemma main_Inr:
  assumes "main w evs tgt = Some (Inr t)"
  shows "\<exists>t1. recon_steps w evs (set_target tgt) = Some (Inr t1) \<and>
    t = t1\<lparr>calls := calls t1 @ [OpenWrite (tgt @ ''_recon.json'')],
           files := [(tgt @ ''_recon.json'', json_dump (self_output t1))]\<rparr>"
proof -
  from assms obtain t1 where r: "recon_steps w evs (set_target tgt) = Some (Inr t1)"
    and s: "save_results w t1 = Inr t"
    by (auto simp: main_def run_recon_def split: option.splits sum.splits)
  from recon_steps_Inr [OF r] have "target t1 = tgt" "files t1 = []" by simp_all
  with s have "t = t1\<lparr>calls := calls t1 @ [OpenWrite (tgt @ ''_recon.json'')],
           files := [(tgt @ ''_recon.json'', json_dump (self_output t1))]\<rparr>"
    by (auto simp: save_results_def log_call_def self_output_def Let_def split: option.splits)
  with r show ?thesis by blast
qed

text \<open>
  C10 (amended). A run that writes its artifact writes one file, named after the target,
  holding the report. Reading the artifact back gives the report with every dictionary
  key replaced by its text: the integer port keys of \<open>port_scan\<close> come back as strings. So
  the value read back is the report itself exactly when the report lists no open port.
\<close>

theorem artifact_read_back_up_to_keys:
  assumes "main w evs tgt = Some (Inr t)"
  shows "files t = [(tgt @ ''_recon.json'', json_dump (self_output t))] \<and>
    json_load (json_dump (self_output t)) = str_keys (self_output t) \<and>
    (json_load (json_dump (self_output t)) = self_output t) = (emitted_ports t = [])"
proof -
  from main_Inr [OF assms] obtain t1 where
    r: "recon_steps w evs (set_target tgt) = Some (Inr t1)" and
    t: "t = t1\<lparr>calls := calls t1 @ [OpenWrite (tgt @ ''_recon.json'')],
             files := [(tgt @ ''_recon.json'', json_dump (self_output t1))]\<rparr>" by blast
  from t have same: "self_output t = self_output t1" by (simp add: self_output_def)
  from recon_steps_Inr [OF r] t have res: "results t = report_results w tgt" by simp
  from t same have "files t = [(tgt @ ''_recon.json'', json_dump (self_output t))]" by simp
  with report_read_back [OF res] show ?thesis by simp
qed

lemma main_world_down:
  "main world_down [] ''example.test'' \<noteq> None \<and>
   \<not> isl (the (main world_down [] ''example.test''))"
  by code_simp

theorem artifact_read_back_up_to_keys_witness:
  "\<exists>t. main world_down [] ''example.test'' = Some (Inr t) \<and>
     map_of (files t) ''example.test_recon.json'' = Some (json_dump (self_output t)) \<and>
     json_load (json_dump (self_output t)) = self_output t"
proof -
  from main_world_down obtain t where t: "main world_down [] ''example.test'' = Some (Inr t)"
    by (cases "main world_down [] ''example.test''";
        cases "the (main world_down [] ''example.test'')") auto
  from main_Inr [OF t] obtain t1 where
    "recon_steps world_down [] (set_target ''example.test'') = Some (Inr t1)" and
    "results t = results t1" by auto
  with recon_steps_world_down have "emitted_ports t = []"
    by (simp add: emitted_ports_def report_down_def)
  with artifact_read_back_up_to_keys [OF t] t show ?thesis by auto
qed

text \<open>
  The round trip as the specification states it does not hold: in \<open>world_up\<close> ports 80 and
  443 are open, the report has the integer keys 80 and 443, and the value read back from
  the artifact differs from the report.
\<close>

theorem artifact_read_back_differs:
  "(case main world_up (in_order 20) ''example.com'' of
      Some (Inr t) \<Rightarrow>
        map_of (files t) ''example.com_recon.json'' = Some (json_dump (self_output t)) \<and>
        emitted_ports t = [KInt 80, KInt 443] \<and>
        json_load (json_dump (self_output t)) \<noteq> self_output t
    | _ \<Rightarrow> False)"
  by code_simp

end
